theory Spec2Isabelle
  imports Main "HOL-Library.AList" "HOL-Library.Monad_Syntax" "HOL-Library.Sublist"
begin

section \<open>Strings of UTF-16 code units\<close>

text \<open>
  A JavaScript string is a sequence of 16-bit code units; \<open>length\<close>, \<open>substring\<close> and
  regular-expression offsets all count code units. A code unit is a natural number here,
  and \<open>js\<close> reads a literal of the source.
\<close>

type_synonym jchar = nat
type_synonym jstring = "jchar list"

definition js :: "string \<Rightarrow> jstring" where
  "js = map of_char"

text \<open>The class \<open>\s\<close> (and the characters \<open>trim\<close> removes): WhiteSpace and LineTerminator.\<close>

definition is_space :: "jchar \<Rightarrow> bool" where
  "is_space c \<longleftrightarrow>
     c = 9 \<or> c = 10 \<or> c = 11 \<or> c = 12 \<or> c = 13 \<or> c = 32 \<or> c = 160 \<or> c = 5760 \<or>
     (8192 \<le> c \<and> c \<le> 8202) \<or> c = 8232 \<or> c = 8233 \<or> c = 8239 \<or> c = 8287 \<or>
     c = 12288 \<or> c = 65279"

definition is_digit :: "jchar \<Rightarrow> bool" where
  "is_digit c \<longleftrightarrow> 48 \<le> c \<and> c \<le> 57"

definition is_line_terminator :: "jchar \<Rightarrow> bool" where
  "is_line_terminator c \<longleftrightarrow> c = 10 \<or> c = 13 \<or> c = 8232 \<or> c = 8233"

text \<open>
  Case folding of the \<open>i\<close> flag. Every letter written in a pattern of this program is a
  Basic Latin letter, and the only code units that fold onto a Basic Latin letter are that
  letter in its two cases.
\<close>

definition canonicalize :: "jchar \<Rightarrow> jchar" where
  "canonicalize c = (if 97 \<le> c \<and> c \<le> 122 then c - 32 else c)"

text \<open>
  \<open>String.prototype.toLowerCase\<close> is a built-in whose case table is not part of the
  program: the functions that call it take it as the argument \<open>toLowerCase\<close>, and what
  is proved of them holds for every such function. On a string of Basic Latin and Latin-1
  code units the built-in is the following function, which is used for the documents that
  are computed further down.
\<close>

definition toLowerCaseLatin1 :: "jstring \<Rightarrow> jstring" where
  "toLowerCaseLatin1 = map (\<lambda>c. if (65 \<le> c \<and> c \<le> 90) \<or> (192 \<le> c \<and> c \<le> 222 \<and> c \<noteq> 215)
                             then c + 32 else c)"

definition trim :: "jstring \<Rightarrow> jstring" where
  "trim s = rev (dropWhile is_space (rev (dropWhile is_space s)))"

text \<open>\<open>s.substring(a, b)\<close>: the arguments are swapped when \<open>a > b\<close> and clamped to the length.\<close>

definition substring :: "jstring \<Rightarrow> nat \<Rightarrow> nat \<Rightarrow> jstring" where
  "substring s a b = take (max a b - min a b) (drop (min a b) s)"

fun match_lit :: "(jchar \<Rightarrow> jchar) \<Rightarrow> jstring \<Rightarrow> jstring \<Rightarrow> jstring list" where
  "match_lit f [] s = [s]"
| "match_lit f (c # cs) [] = []"
| "match_lit f (c # cs) (d # ds) = (if f c = f d then match_lit f cs ds else [])"

text \<open>\<open>s.includes(sub)\<close>\<close>

fun str_includes :: "jstring \<Rightarrow> jstring \<Rightarrow> bool" where
  "str_includes [] sub = (sub = [])"
| "str_includes (c # cs) sub = (match_lit id sub (c # cs) \<noteq> [] \<or> str_includes cs sub)"

section \<open>Regular expressions\<close>

text \<open>
  The patterns of the source as syntax trees, matched by backtracking. \<open>rxm r s\<close> lists,
  in the order in which backtracking tries them, what is left of \<open>s\<close> after each way of
  matching \<open>r\<close> at its start. A greedy star tries one more iteration first, a lazy star
  tries to stop first; an iteration that consumes nothing is rejected, as in the language
  definition.
\<close>

datatype rx =
    Lit jstring
  | LitI jstring
  | Cls "jchar \<Rightarrow> bool"
  | Seq rx rx
  | Alt rx rx
  | Star rx
  | StarL rx
  | Look rx
  | Eos

fun rxm :: "rx \<Rightarrow> jstring \<Rightarrow> jstring list" where
  "rxm (Lit l) s = match_lit id l s"
| "rxm (LitI l) s = match_lit canonicalize l s"
| "rxm (Cls p) s = (case s of [] \<Rightarrow> [] | c # cs \<Rightarrow> if p c then [cs] else [])"
| "rxm (Seq a b) s = concat (map (rxm b) (rxm a s))"
| "rxm (Alt a b) s = rxm a s @ rxm b s"
| "rxm (Star a) s =
     concat (map (\<lambda>t. if length t < length s then rxm (Star a) t else []) (rxm a s)) @ [s]"
| "rxm (StarL a) s =
     s # concat (map (\<lambda>t. if length t < length s then rxm (StarL a) t else []) (rxm a s))"
| "rxm (Look a) s = (if rxm a s = [] then [] else [s])"
| "rxm Eos s = (if s = [] then [s] else [])"

definition Opt :: "rx \<Rightarrow> rx" where
  "Opt a = Alt a (Lit [])"

definition Plus :: "rx \<Rightarrow> rx" where
  "Plus a = Seq a (Star a)"

fun Seqs :: "rx list \<Rightarrow> rx" where
  "Seqs [] = Lit []"
| "Seqs [a] = a"
| "Seqs (a # b # bs) = Seq a (Seqs (b # bs))"

definition Chr :: "string \<Rightarrow> rx" where
  "Chr cs = Cls (\<lambda>c. c \<in> set (js cs))"

definition NotChr :: "string \<Rightarrow> rx" where
  "NotChr cs = Cls (\<lambda>c. c \<notin> set (js cs))"

definition Any :: rx where
  "Any = Cls (\<lambda>c. True)"

definition Dot :: rx where
  "Dot = Cls (\<lambda>c. \<not> is_line_terminator c)"

definition Space :: rx where
  "Space = Cls is_space"

definition Digit :: rx where
  "Digit = Cls is_digit"

text \<open>
  A pattern with one capture group is the part before the group, the group and the part
  after it. \<open>exec_at\<close> matches at the start of \<open>s\<close> and gives the text of the group and
  what is left after the whole match.
\<close>

record regexp =
  pre :: rx
  grp :: rx
  post :: rx

record rmatch =
  index :: nat
  group1 :: jstring
  rest :: jstring

definition exec_at :: "regexp \<Rightarrow> jstring \<Rightarrow> (jstring \<times> jstring) option" where
  "exec_at r s =
     (case [(take (length t1 - length t2) t1, t3).
              t1 \<leftarrow> rxm (pre r) s, t2 \<leftarrow> rxm (grp r) t1, t3 \<leftarrow> rxm (post r) t2] of
        [] \<Rightarrow> None
      | x # _ \<Rightarrow> Some x)"

text \<open>\<open>search r i s\<close>: the first match in \<open>s\<close>, which starts at offset \<open>i\<close> of the document.\<close>

fun search :: "regexp \<Rightarrow> nat \<Rightarrow> jstring \<Rightarrow> rmatch option" where
  "search r i s =
     (case exec_at r s of
        Some (g, t) \<Rightarrow> Some \<lparr>index = i, group1 = g, rest = t\<rparr>
      | None \<Rightarrow> (case s of [] \<Rightarrow> None | c # cs \<Rightarrow> search r (Suc i) cs))"

text \<open>
  The loop \<open>while ((m = re.exec(html)) !== null) ...\<close> of a pattern with the \<open>g\<close> flag:
  each search starts at \<open>lastIndex\<close>, the end of the match before (the offset of
  what that match left of the document). A match of nothing at \<open>lastIndex\<close>
  leaves \<open>lastIndex\<close> where it was and the loop never ends: the value is \<open>None\<close>.
\<close>

partial_function (option) exec_loop :: "regexp \<Rightarrow> nat \<Rightarrow> jstring \<Rightarrow> rmatch list option" where
  "exec_loop r lastIndex s =
     (case search r lastIndex s of
        None \<Rightarrow> Some []
      | Some m \<Rightarrow>
          exec_loop r (lastIndex + (length s - length (rest m))) (rest m)
            \<bind> (\<lambda>ms. Some (m # ms)))"

declare exec_loop.simps [code]

text \<open>\<open>s.replace(r, rep)\<close> for a pattern with the \<open>g\<close> flag, without it, and anchored by \<open>^\<close>.\<close>

fun replaceAll :: "rx \<Rightarrow> jstring \<Rightarrow> jstring \<Rightarrow> jstring" where
  "replaceAll r rep s =
     (case rxm r s of
        t # _ \<Rightarrow>
          if length t < length s then rep @ replaceAll r rep t
          else (case s of [] \<Rightarrow> rep | c # cs \<Rightarrow> rep @ c # replaceAll r rep cs)
      | [] \<Rightarrow> (case s of [] \<Rightarrow> [] | c # cs \<Rightarrow> c # replaceAll r rep cs))"

fun replaceFirst :: "rx \<Rightarrow> jstring \<Rightarrow> jstring \<Rightarrow> jstring" where
  "replaceFirst r rep s =
     (case rxm r s of
        t # _ \<Rightarrow> rep @ t
      | [] \<Rightarrow> (case s of [] \<Rightarrow> [] | c # cs \<Rightarrow> c # replaceFirst r rep cs))"

definition replaceStart :: "rx \<Rightarrow> jstring \<Rightarrow> jstring \<Rightarrow> jstring" where
  "replaceStart r rep s = (case rxm r s of t # _ \<Rightarrow> rep @ t | [] \<Rightarrow> s)"

section \<open>The data model\<close>

datatype status = in_force | amended | repealed | not_yet_in_force

record ActIndexEntry =
  entry_id :: jstring
  actPath :: jstring
  entry_title :: jstring
  titleFr :: jstring
  shortName :: jstring
  entry_status :: status
  issuedDate :: jstring
  inForceDate :: jstring
  entry_url :: jstring

record ParsedProvision =
  provision_ref :: jstring
  p_chapter :: "jstring option"
  p_section :: jstring
  title :: jstring
  content :: jstring

record ParsedDefinition =
  def_term :: jstring
  def_definition :: jstring
  source_provision :: "jstring option"

datatype doctype = statute

record ParsedAct =
  act_id :: jstring
  act_type :: doctype
  act_title :: jstring
  title_en :: jstring
  short_name :: jstring
  act_status :: status
  issued_date :: jstring
  in_force_date :: jstring
  act_url :: jstring
  description :: "jstring option"
  provisions :: "ParsedProvision list"
  definitions :: "ParsedDefinition list"

section \<open>stripHtml\<close>

definition stripHtml :: "jstring \<Rightarrow> jstring" where
  \<open>stripHtml html =
     trim
      (replaceAll (Plus Space) (js '' '')
      (replaceAll (Lit (js ''&ccedil;'')) [231]
      (replaceAll (Lit (js ''&eacute;'')) [233]
      (replaceAll (Lit (js ''&ndash;'')) [8211]
      (replaceAll (Lit (js ''&mdash;'')) [8212]
      (replaceAll (Lit (js ''&rdquo;'')) [8221]
      (replaceAll (Lit (js ''&ldquo;'')) [8220]
      (replaceAll (Lit (js ''&rsquo;'')) [8217]
      (replaceAll (Lit (js ''&#39;'')) [39]
      (replaceAll (Lit (js ''&quot;'')) [34]
      (replaceAll (Lit (js ''&gt;'')) (js ''>'')
      (replaceAll (Lit (js ''&lt;'')) (js ''<'')
      (replaceAll (Lit (js ''&amp;'')) (js ''&'')
      (replaceAll (Lit (js ''&#x00A0;'')) (js '' '')
      (replaceAll (Lit (js ''&nbsp;'')) (js '' '')
      (replaceAll (Seqs [Lit (js ''<''), Plus (NotChr ''>''), Lit (js ''>'')]) (js '' '')
         html))))))))))))))))\<close>

section \<open>Description\<close>

text \<open>\<open>/<title>([^<]+)<\/title>/\<close>\<close>

definition titleRe :: regexp where
  \<open>titleRe = \<lparr>pre = Lit (js ''<title>''), grp = Plus (NotChr ''<''), post = Lit (js ''</title>'')\<rparr>\<close>

definition extractDescription :: "jstring \<Rightarrow> ActIndexEntry \<Rightarrow> jstring" where
  "extractDescription html act =
     (case search titleRe 0 html of
        Some titleMatch \<Rightarrow> stripHtml (group1 titleMatch) @ js '' ('' @ shortName act @ js '')''
      | None \<Rightarrow> entry_title act)"

text \<open>\<open>/Act current to\s*(\d{4}-\d{2}-\d{2})/\<close>\<close>

definition currentToRe :: regexp where
  \<open>currentToRe =
     \<lparr>pre = Seqs [Lit (js ''Act current to''), Star Space],
      grp = Seqs [Digit, Digit, Digit, Digit, Lit (js ''-''), Digit, Digit, Lit (js ''-''), Digit, Digit],
      post = Lit []\<rparr>\<close>

definition extractCurrentToDate :: "jstring \<Rightarrow> jstring option" where
  "extractCurrentToDate html = map_option group1 (search currentToRe 0 html)"

section \<open>extractSections\<close>

text \<open>\<open>/id="s-(\d+(?:\.\d+)?)">/g\<close>\<close>

definition anchorRe :: regexp where
  \<open>anchorRe =
     \<lparr>pre = Lit (js ''id="s-''),
      grp = Seq (Plus Digit) (Opt (Seq (Lit (js ''.'')) (Plus Digit))),
      post = Lit (js ''">'')\<rparr>\<close>

text \<open>
  \<open><h[23][^>]*class="(?:Part|Subheading)"[^>]*>\<close> under the \<open>i\<close> flag, the start of
  two patterns; then \<open>/<h[23][^>]*class="(?:Part|Subheading)"[^>]*>(.*?)<\/h[23]>/gi\<close>.
\<close>

definition partHead :: rx where
  \<open>partHead =
     Seqs [LitI (js ''<h''), Chr ''23'', Star (NotChr ''>''), LitI (js ''class="''),
           Alt (LitI (js ''Part'')) (LitI (js ''Subheading'')), LitI (js ''"''),
           Star (NotChr ''>''), LitI (js ''>'')]\<close>

definition partRe :: regexp where
  \<open>partRe =
     \<lparr>pre = partHead, grp = StarL Dot, post = Seqs [LitI (js ''</h''), Chr ''23'', LitI (js ''>'')]\<rparr>\<close>

text \<open>\<open>/class="MarginalNote"[^>]*>(?:<span[^>]*>Marginal note:<\/span>)?\s*(.*?)<\/p>/gi\<close>\<close>

definition mnRe :: regexp where
  \<open>mnRe =
     \<lparr>pre = Seqs [LitI (js ''class="MarginalNote"''), Star (NotChr ''>''), LitI (js ''>''),
                  Opt (Seqs [LitI (js ''<span''), Star (NotChr ''>''),
                             LitI (js ''>Marginal note:</span>'')]),
                  Star Space],
      grp = StarL Dot,
      post = LitI (js ''</p>'')\<rparr>\<close>

text \<open>
  The patterns of the clean-up, in the order of the source:
  \<open>/<div class="HistoricalNote">.*?<\/div>/gs\<close>, \<open>/<ul class="HistoricalNote">.*?<\/ul>/gs\<close>,
  \<open>/<p class="MarginalNote"[^>]*>.*?<\/p>/gs\<close>,
  \<open>/<h[23][^>]*class="(?:Part|Subheading)"[^>]*>[\s\S]*$/i\<close>,
  \<open>/<div class="Schedule"[\s\S]*$/i\<close>, and on the text
  \<open>/^\s*id="s-[\d.]+"\s*>\s*/\<close>, \<open>/^\s*\d+(?:\.\d+)?\s+/\<close>, \<open>/<[^>]*$/\<close>.
\<close>

definition histDivRe :: rx where
  \<open>histDivRe = Seqs [Lit (js ''<div class="HistoricalNote">''), StarL Any, Lit (js ''</div>'')]\<close>

definition histUlRe :: rx where
  \<open>histUlRe = Seqs [Lit (js ''<ul class="HistoricalNote">''), StarL Any, Lit (js ''</ul>'')]\<close>

definition mnParaRe :: rx where
  \<open>mnParaRe =
     Seqs [Lit (js ''<p class="MarginalNote"''), Star (NotChr ''>''), Lit (js ''>''), StarL Any,
           Lit (js ''</p>'')]\<close>

definition partTailRe :: rx where
  "partTailRe = Seqs [partHead, Star Any, Eos]"

definition schedTailRe :: rx where
  \<open>schedTailRe = Seqs [LitI (js ''<div class="Schedule"''), Star Any, Eos]\<close>

definition anchorResidueRe :: rx where
  \<open>anchorResidueRe =
     Seqs [Star Space, Lit (js ''id="s-''), Plus (Cls (\<lambda>c. is_digit c \<or> c = 46)), Lit (js ''"''),
           Star Space, Lit (js ''>''), Star Space]\<close>

definition leadingNumRe :: rx where
  \<open>leadingNumRe =
     Seqs [Star Space, Plus Digit, Opt (Seq (Lit (js ''.'')) (Plus Digit)), Plus Space]\<close>

definition trailingTagRe :: rx where
  \<open>trailingTagRe = Seqs [Lit (js ''<''), Star (NotChr ''>''), Eos]\<close>

text \<open>
  The entries \<open>{num, pos}\<close>, \<open>{label, pos}\<close> and \<open>{title, pos}\<close> of the three marker
  lists are pairs of a string and an offset. The map \<open>sections\<close> is an association list:
  \<open>AList.update\<close> overwrites the value of a key where it stands and appends a new key, as
  \<open>Map.prototype.set\<close> does, and iteration follows the list.
\<close>

record sectionData =
  s_title :: jstring
  s_content :: jstring
  s_chapter :: jstring

definition sectionText :: "jstring \<Rightarrow> jstring \<times> nat \<Rightarrow> nat \<Rightarrow> jstring" where
  "sectionText html anchor nextAnchorPos =
     (let sectionHtml = substring html (snd anchor) nextAnchorPos;
          cleanedHtml =
            replaceFirst schedTailRe []
              (replaceFirst partTailRe []
                (replaceAll mnParaRe []
                  (replaceAll histUlRe []
                    (replaceAll histDivRe [] sectionHtml))));
          text0 = stripHtml cleanedHtml;
          text1 = replaceStart anchorResidueRe [] text0;
          text2 = replaceStart leadingNumRe (fst anchor @ js '' '') text1
      in trim (replaceFirst trailingTagRe [] text2))"

text \<open>The loop \<open>for (const part of partPositions)\<close> that updates \<open>currentChapter\<close>.\<close>

definition updateChapter :: "(jstring \<times> nat) list \<Rightarrow> nat \<Rightarrow> jstring \<Rightarrow> jstring" where
  "updateChapter partPositions anchorPos currentChapter =
     fold (\<lambda>part cur. if snd part < anchorPos then fst part else cur) partPositions currentChapter"

text \<open>
  The loop \<open>for (let j = marginalNotes.length - 1; j >= 0; j--)\<close> with its \<open>break\<close>; the
  notes are given from the last to the first.
\<close>

fun nearestNote :: "(jstring \<times> nat) list \<Rightarrow> nat \<Rightarrow> jstring" where
  "nearestNote [] anchorPos = []"
| "nearestNote (mn # mns) anchorPos =
     (if snd mn < anchorPos \<and> anchorPos - snd mn < 2000 then fst mn
      else nearestNote mns anchorPos)"

fun sectionLoop ::
  "jstring \<Rightarrow> (jstring \<times> nat) list \<Rightarrow> (jstring \<times> nat) list \<Rightarrow> (jstring \<times> nat) list \<Rightarrow>
   jstring \<times> (jstring \<times> sectionData) list \<Rightarrow> jstring \<times> (jstring \<times> sectionData) list" where
  "sectionLoop html partPositions marginalNotes [] st = st"
| "sectionLoop html partPositions marginalNotes (anchor # anchors) (currentChapter, sections) =
     (let nextAnchorPos = (case anchors of [] \<Rightarrow> length html | next # _ \<Rightarrow> snd next);
          currentChapter' = updateChapter partPositions (snd anchor) currentChapter;
          title = nearestNote (rev marginalNotes) (snd anchor);
          text = sectionText html anchor nextAnchorPos
      in if length text < 10
         then sectionLoop html partPositions marginalNotes anchors (currentChapter', sections)
         else sectionLoop html partPositions marginalNotes anchors
                (currentChapter',
                 AList.update (fst anchor)
                   \<lparr>s_title = title, s_content = take 8000 text, s_chapter = currentChapter'\<rparr>
                   sections))"

definition marker :: "rmatch \<Rightarrow> jstring \<times> nat" where
  "marker m = (stripHtml (group1 m), index m)"

text \<open>The three scans of the document that build the marker lists.\<close>

definition sectionAnchors :: "jstring \<Rightarrow> (jstring \<times> nat) list option" where
  "sectionAnchors html = do {
     ms \<leftarrow> exec_loop anchorRe 0 html;
     Some (map (\<lambda>m. (group1 m, index m)) ms)
   }"

definition partPositions :: "jstring \<Rightarrow> (jstring \<times> nat) list option" where
  "partPositions html = do {
     ms \<leftarrow> exec_loop partRe 0 html;
     Some (map marker ms)
   }"

definition marginalNotes :: "jstring \<Rightarrow> (jstring \<times> nat) list option" where
  "marginalNotes html = do {
     ms \<leftarrow> exec_loop mnRe 0 html;
     Some (filter (\<lambda>mn. fst mn \<noteq> [] \<and> fst mn \<noteq> js ''Marginal note:'') (map marker ms))
   }"

definition extractSections :: "jstring \<Rightarrow> (jstring \<times> sectionData) list option" where
  "extractSections html = do {
     anchors \<leftarrow> sectionAnchors html;
     if anchors = [] then Some []
     else do {
       parts \<leftarrow> partPositions html;
       notes \<leftarrow> marginalNotes html;
       Some (snd (sectionLoop html parts notes anchors ([], [])))
     }
   }"

section \<open>extractDefinitions\<close>

text \<open>\<open>/<p class="Definition"[^>]*>(.*?)<\/p>/gi\<close> and \<open>/<dfn>([^<]+)<\/dfn>/\<close>\<close>

definition defRe :: regexp where
  \<open>defRe =
     \<lparr>pre = Seqs [LitI (js ''<p class="Definition"''), Star (NotChr ''>''), LitI (js ''>'')],
      grp = StarL Dot,
      post = LitI (js ''</p>'')\<rparr>\<close>

definition dfnRe :: regexp where
  \<open>dfnRe = \<lparr>pre = Lit (js ''<dfn>''), grp = Plus (NotChr ''<''), post = Lit (js ''</dfn>'')\<rparr>\<close>

fun definitionsOf :: "jstring \<Rightarrow> rmatch list \<Rightarrow> ParsedDefinition list" where
  "definitionsOf sectionNum [] = []"
| "definitionsOf sectionNum (m # ms) =
     (let defHtml = group1 m in
      case search dfnRe 0 defHtml of
        None \<Rightarrow> definitionsOf sectionNum ms
      | Some termMatch \<Rightarrow>
          (let term = stripHtml (group1 termMatch);
               definition = stripHtml defHtml
           in if term \<noteq> [] \<and> definition \<noteq> []
              then \<lparr>def_term = term, def_definition = definition,
                     source_provision = Some (js ''s'' @ sectionNum)\<rparr>
                   # definitionsOf sectionNum ms
              else definitionsOf sectionNum ms))"

definition extractDefinitions :: "jstring \<Rightarrow> jstring \<Rightarrow> ParsedDefinition list option" where
  "extractDefinitions html sectionNum = do {
     ms \<leftarrow> exec_loop defRe 0 html;
     Some (definitionsOf sectionNum ms)
   }"

section \<open>extractSchedules\<close>

text \<open>
  \<open>/<div class="Schedule"[^>]*>(.*?)<\/div>\s*(?=<div class="Schedule"|<section|<footer|$)/gis\<close>,
  \<open>/class="scheduleLabel"[^>]*>([^<]+)</\<close>, \<open>/class="scheduleTitleText"[^>]*>([^<]+)/\<close>,
  \<open>/<p class="SchedHeadL1"[^>]*>(.*?)<\/p>/gi\<close> and \<open>/^(\d+(?:\.\d+)?)\s/\<close>.
\<close>

definition scheduleRe :: regexp where
  \<open>scheduleRe =
     \<lparr>pre = Seqs [LitI (js ''<div class="Schedule"''), Star (NotChr ''>''), LitI (js ''>'')],
      grp = StarL Any,
      post = Seqs [LitI (js ''</div>''), Star Space,
                   Look (Alt (LitI (js ''<div class="Schedule"''))
                        (Alt (LitI (js ''<section'')) (Alt (LitI (js ''<footer'')) Eos)))]\<rparr>\<close>

definition labelRe :: regexp where
  \<open>labelRe =
     \<lparr>pre = Seqs [Lit (js ''class="scheduleLabel"''), Star (NotChr ''>''), Lit (js ''>'')],
      grp = Plus (NotChr ''<''),
      post = Lit (js ''<'')\<rparr>\<close>

definition schedTitleRe :: regexp where
  \<open>schedTitleRe =
     \<lparr>pre = Seqs [Lit (js ''class="scheduleTitleText"''), Star (NotChr ''>''), Lit (js ''>'')],
      grp = Plus (NotChr ''<''),
      post = Lit []\<rparr>\<close>

definition headingRe :: regexp where
  \<open>headingRe =
     \<lparr>pre = Seqs [LitI (js ''<p class="SchedHeadL1"''), Star (NotChr ''>''), LitI (js ''>'')],
      grp = StarL Dot,
      post = LitI (js ''</p>'')\<rparr>\<close>

definition refRe :: regexp where
  \<open>refRe =
     \<lparr>pre = Lit [], grp = Seq (Plus Digit) (Opt (Seq (Lit (js ''.'')) (Plus Digit))), post = Space\<rparr>\<close>

definition scheduleKey :: "(jstring \<Rightarrow> jstring) \<Rightarrow> jstring \<Rightarrow> jstring" where
  "scheduleKey toLowerCase scheduleLabel = js ''sched-'' @ replaceAll (Plus Space) [] (toLowerCase scheduleLabel)"

definition scheduleChapter :: "jstring \<Rightarrow> jstring \<Rightarrow> jstring" where
  "scheduleChapter scheduleLabel scheduleTitle =
     scheduleLabel @ (if scheduleTitle \<noteq> [] then js '' - '' @ scheduleTitle else [])"

fun headingProvisions ::
  "(jstring \<Rightarrow> jstring) \<Rightarrow> jstring \<Rightarrow> jstring \<Rightarrow> jstring \<Rightarrow> (jstring \<times> nat) list \<Rightarrow> ParsedProvision list" where
  "headingProvisions toLowerCase scheduleHtml scheduleLabel scheduleTitle [] = []"
| "headingProvisions toLowerCase scheduleHtml scheduleLabel scheduleTitle (heading # headings) =
     (let nextPos = (case headings of [] \<Rightarrow> length scheduleHtml | next # _ \<Rightarrow> snd next);
          blockHtml = substring scheduleHtml (snd heading) nextPos;
          content = stripHtml blockHtml
      in (if length content > 10
          then (let ref = (case exec_at refRe (fst heading) of
                             Some refMatch \<Rightarrow> fst refMatch
                           | None \<Rightarrow> substring (fst heading) 0 20)
                in [\<lparr>provision_ref = scheduleKey toLowerCase scheduleLabel @ js ''-'' @ ref,
                      p_chapter = Some (scheduleChapter scheduleLabel scheduleTitle),
                      p_section = ref,
                      title = fst heading,
                      content = substring content 0 8000\<rparr>])
          else [])
         @ headingProvisions toLowerCase scheduleHtml scheduleLabel scheduleTitle headings)"

text \<open>The body of the loop over the schedule blocks, for one block.\<close>

definition scheduleProvisions :: "(jstring \<Rightarrow> jstring) \<Rightarrow> jstring \<Rightarrow> ParsedProvision list option" where
  "scheduleProvisions toLowerCase scheduleHtml =
     (case search labelRe 0 scheduleHtml of
        None \<Rightarrow> Some []
      | Some labelMatch \<Rightarrow>
          (let scheduleLabel = stripHtml (group1 labelMatch);
               scheduleTitle = (case search schedTitleRe 0 scheduleHtml of
                                  Some titleMatch \<Rightarrow> stripHtml (group1 titleMatch)
                                | None \<Rightarrow> [])
           in do {
             hs \<leftarrow> exec_loop headingRe 0 scheduleHtml;
             let headingPositions = map marker hs;
             if headingPositions \<noteq> []
             then Some (headingProvisions toLowerCase scheduleHtml scheduleLabel scheduleTitle headingPositions)
             else (let cleanedHtml = replaceAll histDivRe [] scheduleHtml;
                       content = stripHtml cleanedHtml
                   in Some (if length content > 10
                            then [\<lparr>provision_ref = scheduleKey toLowerCase scheduleLabel,
                                    p_chapter = Some (scheduleChapter scheduleLabel scheduleTitle),
                                    p_section = scheduleLabel,
                                    title = (if scheduleTitle \<noteq> [] then scheduleTitle
                                             else scheduleLabel),
                                    content = substring content 0 8000\<rparr>]
                            else []))
           }))"

definition extractSchedules ::
  "(jstring \<Rightarrow> jstring) \<Rightarrow> jstring \<Rightarrow> (ParsedProvision list \<times> ParsedDefinition list) option" where
  "extractSchedules toLowerCase html = do {
     ms \<leftarrow> exec_loop scheduleRe 0 html;
     pss \<leftarrow> those (map (\<lambda>schedMatch. scheduleProvisions toLowerCase (group1 schedMatch)) ms);
     Some (concat pss, [])
   }"

section \<open>parseFullTextHtml\<close>

text \<open>
  The one effect of the function is a line written to the console when the page is a
  not-found page; the console is passed in and returned.
\<close>

type_synonym console = "jstring list"

definition soft404 :: "jstring \<Rightarrow> bool" where
  "soft404 html \<longleftrightarrow> str_includes html (js ''Page not Found'') \<or> str_includes html (js ''Error 404'')"

definition sectionProvision :: "jstring \<times> sectionData \<Rightarrow> ParsedProvision" where
  "sectionProvision e =
     (case e of (sectionNum, data) \<Rightarrow>
        \<lparr>provision_ref = js ''s'' @ sectionNum,
         p_chapter = (if s_chapter data = [] then None else Some (s_chapter data)),
         p_section = sectionNum,
         title = s_title data,
         content = s_content data\<rparr>)"

definition parseFullTextHtml ::
  "(jstring \<Rightarrow> jstring) \<Rightarrow> jstring \<Rightarrow> ActIndexEntry \<Rightarrow> console \<Rightarrow> (ParsedAct \<times> console) option" where
  "parseFullTextHtml toLowerCase html act out =
     (if soft404 html
      then Some
        (\<lparr>act_id = entry_id act, act_type = statute, act_title = entry_title act,
          title_en = entry_title act, short_name = shortName act, act_status = entry_status act,
          issued_date = issuedDate act, in_force_date = inForceDate act, act_url = entry_url act,
          description = Some (entry_title act), provisions = [], definitions = []\<rparr>,
         out @ [js ''    WARNING: '' @ shortName act @ js '' returned a 404 page''])
      else do {
        let description = extractDescription html act;
        let currentTo = extractCurrentToDate html;
        sectionMap \<leftarrow> extractSections html;
        let provisions = map sectionProvision sectionMap;
        allDefs \<leftarrow> extractDefinitions html (js ''2'');
        let definitions = allDefs;
        scheduleData \<leftarrow> extractSchedules toLowerCase html;
        Some
          (\<lparr>act_id = entry_id act, act_type = statute, act_title = entry_title act,
            title_en = entry_title act, short_name = shortName act,
            act_status = entry_status act, issued_date = issuedDate act,
            in_force_date = inForceDate act, act_url = entry_url act,
            description =
              Some (case currentTo of
                      Some d \<Rightarrow> description @ js ''. Current to '' @ d @ js ''.''
                    | None \<Rightarrow> description),
            provisions = provisions @ fst scheduleData,
            definitions = definitions @ snd scheduleData\<rparr>,
           out)
      })"

section \<open>Auxiliary notions for the proofs\<close>

text \<open>
  A pattern is consuming when every match of it takes at least one code unit. \<open>scan\<close> is
  the list of matches that the loop of \<open>exec_loop\<close> collects when it ends; for a pattern
  whose start is consuming the loop does end, with this list.
\<close>

definition consuming :: "rx \<Rightarrow> bool" where
  "consuming r \<longleftrightarrow> (\<forall>s t. t \<in> set (rxm r s) \<longrightarrow> length t < length s)"

fun scan :: "regexp \<Rightarrow> nat \<Rightarrow> jstring \<Rightarrow> rmatch list" where
  "scan r lastIndex s =
     (case search r lastIndex s of
        None \<Rightarrow> []
      | Some m \<Rightarrow>
          if length (rest m) < length s
          then m # scan r (lastIndex + (length s - length (rest m))) (rest m)
          else [])"

text \<open>
  The region of an anchor runs to the offset of the next anchor, or to the end of the
  document: \<open>anchorRegions\<close> pairs every anchor with \<open>nextAnchorPos\<close>. An occurrence of a
  section number is retained when its text has at least 10 code units.
\<close>

definition anchorRegions :: "jstring \<Rightarrow> (jstring \<times> nat) list \<Rightarrow> ((jstring \<times> nat) \<times> nat) list" where
  "anchorRegions html anchors = zip anchors (map snd (tl anchors) @ [length html])"

definition retained :: "jstring \<Rightarrow> (jstring \<times> nat) \<times> nat \<Rightarrow> bool" where
  "retained html region \<longleftrightarrow> 10 \<le> length (sectionText html (fst region) (snd region))"

text \<open>
  The association rules in the words of the specification: the chapter is the label of the
  last heading marker whose offset precedes the anchor, the title that of the last marginal
  note that precedes the anchor by less than 2000 code units; empty when there is none.
\<close>

definition spec_chapter :: "(jstring \<times> nat) list \<Rightarrow> nat \<Rightarrow> jstring" where
  "spec_chapter parts anchorPos =
     (case filter (\<lambda>part. snd part < anchorPos) parts of [] \<Rightarrow> [] | hs \<Rightarrow> fst (last hs))"

definition spec_title :: "(jstring \<times> nat) list \<Rightarrow> nat \<Rightarrow> jstring" where
  "spec_title notes anchorPos =
     (case filter (\<lambda>mn. snd mn < anchorPos \<and> anchorPos - snd mn < 2000) notes of
        [] \<Rightarrow> []
      | ns \<Rightarrow> fst (last ns))"

text \<open>What one iteration of the section loop stores for a retained region.\<close>

definition regionEntry ::
  "jstring \<Rightarrow> (jstring \<times> nat) list \<Rightarrow> (jstring \<times> nat) list \<Rightarrow> (jstring \<times> nat) \<times> nat \<Rightarrow>
   jstring \<times> sectionData" where
  "regionEntry html parts notes region =
     (fst (fst region),
      \<lparr>s_title = spec_title notes (snd (fst region)),
       s_content = take 8000 (sectionText html (fst region) (snd region)),
       s_chapter = spec_chapter parts (snd (fst region))\<rparr>)"

text \<open>
  \<open>sections.set(num, entry)\<close> for an entry \<open>(num, data)\<close>; the retained occurrences of a
  section number, in the order of the document.
\<close>

definition store :: "jstring \<times> sectionData \<Rightarrow> (jstring \<times> sectionData) list \<Rightarrow> (jstring \<times> sectionData) list" where
  "store e = AList.update (fst e) (snd e)"

definition occurrences ::
  "jstring \<Rightarrow> jstring \<Rightarrow> (jstring \<times> nat) list \<Rightarrow> ((jstring \<times> nat) \<times> nat) list" where
  "occurrences html k anchors =
     filter (\<lambda>region. fst (fst region) = k \<and> retained html region) (anchorRegions html anchors)"

text \<open>
  What holds of every provision made from a schedule block: its key starts with
  \<open>sched-\<close>, and its content is the first 8000 code units of a normalised text of more
  than 10 code units, that of the whole block or of a part of it.
\<close>

definition sched_inv :: "jstring \<Rightarrow> ParsedProvision \<Rightarrow> bool" where
  "sched_inv blk p \<longleftrightarrow>
     prefix (js ''sched-'') (provision_ref p) \<and>
     (\<exists>c. 10 < length c \<and> content p = take 8000 c \<and>
          (c = stripHtml (replaceAll histDivRe [] blk) \<or>
           (\<exists>pos nx. c = stripHtml (substring blk pos nx))))"

text \<open>
  The provisions of one schedule block in the words of the specification. A block without
  a label gives none. In a block with sub-headings the region of a sub-heading runs from
  its offset to the offset of the next sub-heading, or to the end of the block; every
  sub-heading whose region has a normalised text of more than 10 code units gives one
  provision, in the order of the sub-headings. A block without sub-headings gives one
  provision when its normalised text has more than 10 code units.
\<close>

definition headingRef :: "jstring \<Rightarrow> jstring" where
  "headingRef headingTitle =
     (case exec_at refRe headingTitle of
        Some refMatch \<Rightarrow> fst refMatch
      | None \<Rightarrow> substring headingTitle 0 20)"

definition headingText :: "jstring \<Rightarrow> (jstring \<times> nat) \<times> nat \<Rightarrow> jstring" where
  "headingText blk region = stripHtml (substring blk (snd (fst region)) (snd region))"

definition headingProvision ::
  "(jstring \<Rightarrow> jstring) \<Rightarrow> jstring \<Rightarrow> jstring \<Rightarrow> jstring \<Rightarrow> (jstring \<times> nat) \<times> nat \<Rightarrow>
   ParsedProvision" where
  "headingProvision toLowerCase blk l t region =
     \<lparr>provision_ref = scheduleKey toLowerCase l @ js ''-'' @ headingRef (fst (fst region)),
      p_chapter = Some (scheduleChapter l t),
      p_section = headingRef (fst (fst region)),
      title = fst (fst region),
      content = take 8000 (headingText blk region)\<rparr>"

definition blockProvisions :: "(jstring \<Rightarrow> jstring) \<Rightarrow> jstring \<Rightarrow> ParsedProvision list" where
  "blockProvisions toLowerCase blk =
     (case search labelRe 0 blk of
        None \<Rightarrow> []
      | Some labelMatch \<Rightarrow>
          (let l = stripHtml (group1 labelMatch);
               t = (case search schedTitleRe 0 blk of
                      Some titleMatch \<Rightarrow> stripHtml (group1 titleMatch)
                    | None \<Rightarrow> []);
               hs = map marker (scan headingRe 0 blk)
           in if hs \<noteq> []
              then map (headingProvision toLowerCase blk l t)
                     (filter (\<lambda>region. 10 < length (headingText blk region)) (anchorRegions blk hs))
              else if 10 < length (stripHtml (replaceAll histDivRe [] blk))
                then [\<lparr>provision_ref = scheduleKey toLowerCase l,
                        p_chapter = Some (scheduleChapter l t),
                        p_section = l,
                        title = (if t \<noteq> [] then t else l),
                        content = take 8000 (stripHtml (replaceAll histDivRe [] blk))\<rparr>]
                else []))"

text \<open>
  The term and the text of a definition block, when the block has a \<open>dfn\<close> element and
  both are not empty.
\<close>

definition definedPair :: "rmatch \<Rightarrow> (jstring \<times> jstring) option" where
  "definedPair m =
     (case search dfnRe 0 (group1 m) of
        None \<Rightarrow> None
      | Some termMatch \<Rightarrow>
          if stripHtml (group1 termMatch) \<noteq> [] \<and> stripHtml (group1 m) \<noteq> []
          then Some (stripHtml (group1 termMatch), stripHtml (group1 m)) else None)"

text \<open>
  A numeral in the words of the specification: an integer, optionally with a decimal
  sub-part (the shape \<open>\d+(?:\.\d+)?\<close>).
\<close>

definition is_numeral :: "jstring \<Rightarrow> bool" where
  "is_numeral k \<longleftrightarrow>
     takeWhile is_digit k \<noteq> [] \<and>
     (case dropWhile is_digit k of
        [] \<Rightarrow> True
      | c # es \<Rightarrow> c = 46 \<and> es \<noteq> [] \<and> list_all is_digit es)"

text \<open>The first entry of \<open>KEY_CANADIAN_ACTS\<close>.\<close>

definition pipeda :: ActIndexEntry where
  "pipeda =
     \<lparr>entry_id = js ''pipeda'', actPath = js ''P-8.6'',
      entry_title = js ''Personal Information Protection and Electronic Documents Act'',
      titleFr = js ''Loi sur la protection des renseignements personnels et les documents electroniques'',
      shortName = js ''PIPEDA'', entry_status = in_force, issuedDate = js ''2000-04-13'',
      inForceDate = js ''2001-01-01'',
      entry_url = js ''https://laws-lois.justice.gc.ca/eng/acts/P-8.6/''\<rparr>"

text \<open>Documents on which the functions are computed below.\<close>

definition doc_part_note :: jstring where
  \<open>doc_part_note =
     js ''<h2 class="Part">PART 1</h2><p class="MarginalNote">Short title</p><p><a id="s-1">1</a> This Act is the Test Act.</p>''\<close>

definition doc_repeated :: jstring where
  \<open>doc_repeated = js ''<a id="s-1">1</a> Short title of Act. <a id="s-1">1</a> x''\<close>

definition doc_two_schedules :: jstring where
  \<open>doc_two_schedules =
     js ''<div class="Schedule"><p class="scheduleLabel">SCHEDULE</p>first text here</div><div class="Schedule"><p class="scheduleLabel">SCHEDULE</p>other text here</div>''\<close>

definition doc_definitions :: jstring where
  \<open>doc_definitions =
     js ''<p class="Definition"><dfn>record</dfn> means a file.</p><p class="Definition"><dfn>record</dfn> includes a copy.</p>''\<close>


definition docA :: jstring where
  \<open>docA =
     js ''<a id="s-1">1</a> First section text.<a id="s-2">2</a> Other section text.<h2 class="Part">P2</h2><p class="MarginalNote">Later</p><a id="s-1">1</a> Final section text.''\<close>

definition doc_full :: jstring where
  \<open>doc_full =
     js ''<a id="s-1">1</a> First section.<a id="s-2">2</a> Other section.<p class="Definition"><dfn>act</dfn> means it.</p><div class="Schedule"><p class="scheduleLabel">S</p><p class="SchedHeadL1">1 Heading one</p><p class="SchedHeadL1">2 Heading two</p></div>''\<close>

declare rxm.simps(6,7) [simp del]
declare search.simps [simp del]
declare scan.simps [simp del]
declare replaceAll.simps [simp del]
declare replaceFirst.simps [simp del]

section \<open>Matching only consumes\<close>

lemma match_lit_split: "t \<in> set (match_lit f l s) \<Longrightarrow> \<exists>u. s = u @ t \<and> length u = length l"
proof (induction f l s rule: match_lit.induct)
  case (3 f c cs d ds)
  then have "f c = f d" and "t \<in> set (match_lit f cs ds)"
    by (auto split: if_splits)
  with 3 obtain u where "ds = u @ t" "length u = length cs"
    by blast
  then have "d # ds = (d # u) @ t \<and> length (d # u) = length (c # cs)"
    by simp
  then show ?case by blast
qed auto

lemma rxm_Star_mem:
  "t \<in> set (rxm (Star a) s) \<longleftrightarrow>
     t = s \<or> (\<exists>u\<in>set (rxm a s). length u < length s \<and> t \<in> set (rxm (Star a) u))"
  by (subst rxm.simps) auto

lemma rxm_StarL_mem:
  "t \<in> set (rxm (StarL a) s) \<longleftrightarrow>
     t = s \<or> (\<exists>u\<in>set (rxm a s). length u < length s \<and> t \<in> set (rxm (StarL a) u))"
  by (subst rxm.simps) auto

lemma match_lit_suffix: "t \<in> set (match_lit f l s) \<Longrightarrow> suffix t s"
  by (drule match_lit_split) (auto intro: suffixI)

lemma rxm_Cls_mem: "t \<in> set (rxm (Cls p) s) \<longleftrightarrow> (\<exists>c. s = c # t \<and> p c)"
  by (cases s) auto

lemma rxm_suffix: "t \<in> set (rxm r s) \<Longrightarrow> suffix t s"
proof (induction r s arbitrary: t rule: rxm.induct)
  case (1 l s)
  then show ?case by (simp add: match_lit_suffix)
next
  case (2 l s)
  then show ?case by (simp add: match_lit_suffix)
next
  case (3 p s)
  then obtain c where "s = c # t"
    unfolding rxm_Cls_mem by blast
  then show ?case by (simp add: suffix_Cons)
next
  case (4 a b s)
  from 4(3) obtain u where u: "u \<in> set (rxm a s)" "t \<in> set (rxm b u)"
    by auto
  from 4(1)[OF u(1)] 4(2)[OF u] show ?case
    by (rule suffix_order.trans[rotated])
next
  case (5 a b s)
  from 5(3) have "t \<in> set (rxm a s) \<or> t \<in> set (rxm b s)"
    by simp
  with 5(1,2) show ?case by blast
next
  case (6 a s)
  from iffD1[OF rxm_Star_mem 6(3)] consider "t = s"
    | u where "u \<in> set (rxm a s)" "length u < length s" "t \<in> set (rxm (Star a) u)"
    by blast
  then show ?case
  proof cases
    case 1
    then show ?thesis by simp
  next
    case 2
    from 6(1)[OF 2(1)] 6(2)[OF 2] show ?thesis
      by (rule suffix_order.trans[rotated])
  qed
next
  case (7 a s)
  from iffD1[OF rxm_StarL_mem 7(3)] consider "t = s"
    | u where "u \<in> set (rxm a s)" "length u < length s" "t \<in> set (rxm (StarL a) u)"
    by blast
  then show ?case
  proof cases
    case 1
    then show ?thesis by simp
  next
    case 2
    from 7(1)[OF 2(1)] 7(2)[OF 2] show ?thesis
      by (rule suffix_order.trans[rotated])
  qed
next
  case (8 a s)
  then have "t = s" by (simp split: if_splits)
  then show ?case by simp
next
  case (9 s)
  then have "t = s" by (simp split: if_splits)
  then show ?case by simp
qed

lemma rxm_length: "t \<in> set (rxm r s) \<Longrightarrow> length t \<le> length s"
  by (drule rxm_suffix) (rule suffix_length_le)

lemma consuming_Lit: "l \<noteq> [] \<Longrightarrow> consuming (Lit l)"
  unfolding consuming_def by (auto dest!: match_lit_split)

lemma consuming_LitI: "l \<noteq> [] \<Longrightarrow> consuming (LitI l)"
  unfolding consuming_def by (auto dest!: match_lit_split)

lemma consuming_Seq:
  assumes "consuming a"
  shows "consuming (Seq a b)"
  unfolding consuming_def
proof (intro allI impI)
  fix s t
  assume "t \<in> set (rxm (Seq a b) s)"
  then obtain u where "u \<in> set (rxm a s)" "t \<in> set (rxm b u)"
    by auto
  with assms have "length u < length s" "length t \<le> length u"
    by (auto simp: consuming_def dest: rxm_length)
  then show "length t < length s" by simp
qed

lemma consuming_Seqs: "consuming a \<Longrightarrow> consuming (Seqs (a # as))"
  by (cases as) (simp_all add: consuming_Seq)

lemma exec_at_SomeD:
  assumes "exec_at r s = Some (g, t)"
  shows "\<exists>t1 t2. t1 \<in> set (rxm (pre r) s) \<and> t2 \<in> set (rxm (grp r) t1) \<and>
           t \<in> set (rxm (post r) t2) \<and> g = take (length t1 - length t2) t1"
proof -
  let ?xs = "[(take (length t1 - length t2) t1, t3).
              t1 \<leftarrow> rxm (pre r) s, t2 \<leftarrow> rxm (grp r) t1, t3 \<leftarrow> rxm (post r) t2]"
  from assms have "(g, t) \<in> set ?xs"
    unfolding exec_at_def by (cases ?xs) (auto split: list.splits)
  then show ?thesis by auto
qed

lemma exec_at_length:
  assumes "exec_at r s = Some (g, t)"
  shows "length t \<le> length s" and "consuming (pre r) \<Longrightarrow> length t < length s"
proof -
  from exec_at_SomeD[OF assms] obtain t1 t2 where
    *: "t1 \<in> set (rxm (pre r) s)" "t2 \<in> set (rxm (grp r) t1)" "t \<in> set (rxm (post r) t2)"
    by blast
  then have le: "length t \<le> length t2" "length t2 \<le> length t1" "length t1 \<le> length s"
    by (auto dest: rxm_length)
  then show "length t \<le> length s" by simp
  assume "consuming (pre r)"
  with *(1) have "length t1 < length s" by (simp add: consuming_def)
  with le show "length t < length s" by simp
qed

lemma search_SomeD:
  "search r i s = Some m \<Longrightarrow>
   \<exists>k\<le>length s. index m = i + k \<and> exec_at r (drop k s) = Some (group1 m, rest m)"
proof (induction r i s rule: search.induct)
  case (1 r i s)
  show ?case
  proof (cases "exec_at r s")
    case (Some gt)
    with 1(2) have "index m = i + 0 \<and> exec_at r (drop 0 s) = Some (group1 m, rest m)"
      by (cases gt) (auto simp: search.simps[of r i s])
    then show ?thesis by blast
  next
    case None
    with 1(2) obtain c cs where s: "s = c # cs" and "search r (Suc i) cs = Some m"
      by (cases s) (auto simp: search.simps[of r i])
    with 1(1)[OF None s] obtain k where
      "k \<le> length cs" "index m = Suc i + k" "exec_at r (drop k cs) = Some (group1 m, rest m)"
      by blast
    with s have "Suc k \<le> length s \<and> index m = i + Suc k \<and>
                 exec_at r (drop (Suc k) s) = Some (group1 m, rest m)"
      by simp
    then show ?thesis by blast
  qed
qed

lemma search_bounds:
  assumes "search r i s = Some m" and "consuming (pre r)"
  shows "i \<le> index m" and "index m < i + (length s - length (rest m))"
    and "length (rest m) < length s"
proof -
  from search_SomeD[OF assms(1)] obtain k where
    k: "k \<le> length s" "index m = i + k" "exec_at r (drop k s) = Some (group1 m, rest m)"
    by blast
  from exec_at_length(2)[OF k(3) assms(2)] have "length (rest m) < length s - k"
    by simp
  with k show "i \<le> index m" "index m < i + (length s - length (rest m))"
    "length (rest m) < length s"
    by auto
qed

lemma exec_loop_scan: "consuming (pre r) \<Longrightarrow> exec_loop r i s = Some (scan r i s)"
proof (induction r i s rule: scan.induct)
  case (1 r i s)
  show ?case
  proof (cases "search r i s")
    case None
    then show ?thesis by (subst exec_loop.simps, subst scan.simps) simp
  next
    case (Some m)
    from search_bounds(3)[OF Some 1(2)] have lt: "length (rest m) < length s" .
    from 1(1)[OF Some lt 1(2)] Some lt show ?thesis
      by (subst exec_loop.simps, subst scan.simps) simp
  qed
qed

lemma scan_sorted:
  "consuming (pre r) \<Longrightarrow>
   sorted_wrt (<) (map index (scan r i s)) \<and> (\<forall>m\<in>set (scan r i s). i \<le> index m)"
proof (induction r i s rule: scan.induct)
  case (1 r i s)
  show ?case
  proof (cases "search r i s")
    case None
    then show ?thesis by (subst (1 2) scan.simps) simp
  next
    case (Some m)
    from search_bounds[OF Some 1(2)] have
      b: "i \<le> index m" "index m < i + (length s - length (rest m))" "length (rest m) < length s"
      by auto
    from 1(1)[OF Some b(3) 1(2)] have
      ih: "sorted_wrt (<) (map index (scan r (i + (length s - length (rest m))) (rest m)))"
          "\<forall>m'\<in>set (scan r (i + (length s - length (rest m))) (rest m)).
             i + (length s - length (rest m)) \<le> index m'"
      by auto
    have eq: "scan r i s = m # scan r (i + (length s - length (rest m))) (rest m)"
      using Some b(3) by (subst scan.simps) simp
    from ih b show ?thesis
      unfolding eq by fastforce
  qed
qed

section \<open>Every scan ends\<close>

lemma consuming_anchorRe: "consuming (pre anchorRe)"
  by (simp add: anchorRe_def js_def consuming_Lit)

lemma consuming_partRe: "consuming (pre partRe)"
  by (simp add: partRe_def partHead_def js_def consuming_Seq consuming_LitI)

lemma consuming_mnRe: "consuming (pre mnRe)"
  by (simp add: mnRe_def js_def consuming_Seq consuming_LitI)

lemma consuming_defRe: "consuming (pre defRe)"
  by (simp add: defRe_def js_def consuming_Seq consuming_LitI)

lemma consuming_scheduleRe: "consuming (pre scheduleRe)"
  by (simp add: scheduleRe_def js_def consuming_Seq consuming_LitI)

lemma consuming_headingRe: "consuming (pre headingRe)"
  by (simp add: headingRe_def js_def consuming_Seq consuming_LitI)

lemmas exec_loop_total =
  exec_loop_scan[OF consuming_anchorRe] exec_loop_scan[OF consuming_partRe]
  exec_loop_scan[OF consuming_mnRe] exec_loop_scan[OF consuming_defRe]
  exec_loop_scan[OF consuming_scheduleRe] exec_loop_scan[OF consuming_headingRe]

lemma sectionAnchors_eq:
  "sectionAnchors html = Some (map (\<lambda>m. (group1 m, index m)) (scan anchorRe 0 html))"
  by (simp add: sectionAnchors_def exec_loop_total)

lemma partPositions_eq: "partPositions html = Some (map marker (scan partRe 0 html))"
  by (simp add: partPositions_def exec_loop_total)

lemma marginalNotes_eq:
  "marginalNotes html =
     Some (filter (\<lambda>mn. fst mn \<noteq> [] \<and> fst mn \<noteq> js ''Marginal note:'')
             (map marker (scan mnRe 0 html)))"
  by (simp add: marginalNotes_def exec_loop_total)

lemma sectionAnchors_sorted:
  assumes "sectionAnchors html = Some anchors"
  shows "sorted_wrt (<) (map snd anchors)"
  using assms scan_sorted[OF consuming_anchorRe, of 0 html]
  by (auto simp: sectionAnchors_eq comp_def)

lemma partPositions_sorted:
  assumes "partPositions html = Some parts"
  shows "sorted_wrt (<) (map snd parts)"
  using assms scan_sorted[OF consuming_partRe, of 0 html]
  by (auto simp: partPositions_eq comp_def marker_def)

lemma marginalNotes_sorted:
  assumes "marginalNotes html = Some notes"
  shows "sorted_wrt (<) (map snd notes)"
proof -
  have "sorted_wrt (\<lambda>x y. snd x < snd y) (map marker (scan mnRe 0 html))"
    using scan_sorted[OF consuming_mnRe, of 0 html] by (simp add: sorted_wrt_map marker_def)
  then have "sorted_wrt (\<lambda>x y. snd x < snd y)
      (filter (\<lambda>mn. fst mn \<noteq> [] \<and> fst mn \<noteq> js ''Marginal note:'')
         (map marker (scan mnRe 0 html)))"
    by (rule sorted_wrt_filter)
  with assms show ?thesis by (simp add: marginalNotes_eq sorted_wrt_map)
qed

section \<open>Section numbers start with a digit\<close>

lemma rxm_Plus_Cls:
  assumes "t \<in> set (rxm (Plus (Cls p)) s)"
  shows "\<exists>c u. s = c # u \<and> p c \<and> suffix t u"
proof -
  from assms obtain u where u: "u \<in> set (rxm (Cls p) s)" "t \<in> set (rxm (Star (Cls p)) u)"
    by (auto simp: Plus_def)
  from u(1) obtain c where "s = c # u" "p c"
    unfolding rxm_Cls_mem by blast
  with rxm_suffix[OF u(2)] show ?thesis by blast
qed

lemma numeral_capture:
  assumes "t2 \<in> set (rxm (Seq (Plus Digit) r) t1)"
  shows "\<exists>c g. take (length t1 - length t2) t1 = c # g \<and> is_digit c"
proof -
  from assms obtain u where u: "u \<in> set (rxm (Plus Digit) t1)" "t2 \<in> set (rxm r u)"
    by auto
  from rxm_Plus_Cls[OF u(1)[unfolded Digit_def]] obtain c v where
    cv: "t1 = c # v" "is_digit c" "suffix u v"
    by blast
  from rxm_length[OF u(2)] suffix_length_le[OF cv(3)] have "length t2 \<le> length v"
    by simp
  then have "take (length t1 - length t2) t1 = c # take (length v - length t2) v"
    using cv(1) by (simp add: Suc_diff_le)
  with cv(2) show ?thesis by blast
qed

lemma scan_mem:
  "m \<in> set (scan r i s) \<Longrightarrow> \<exists>u. exec_at r u = Some (group1 m, rest m)"
proof (induction r i s rule: scan.induct)
  case (1 r i s)
  show ?case
  proof (cases "search r i s")
    case None
    with 1(2) show ?thesis by (simp add: scan.simps[of r i s])
  next
    case (Some m')
    with 1(2) have lt: "length (rest m') < length s"
      and "m = m' \<or> m \<in> set (scan r (i + (length s - length (rest m'))) (rest m'))"
      by (auto simp: scan.simps[of r i s] split: if_splits)
    from this(2) show ?thesis
    proof
      assume "m = m'"
      with search_SomeD[OF Some] show ?thesis by blast
    next
      assume "m \<in> set (scan r (i + (length s - length (rest m'))) (rest m'))"
      from 1(1)[OF Some lt this] show ?thesis .
    qed
  qed
qed

lemma anchor_num_digit:
  assumes "sectionAnchors html = Some anchors" and "a \<in> set anchors"
  shows "\<exists>c g. fst a = c # g \<and> is_digit c"
proof -
  from assms obtain m where m: "m \<in> set (scan anchorRe 0 html)" "fst a = group1 m"
    by (auto simp: sectionAnchors_eq)
  from scan_mem[OF m(1)] obtain u where "exec_at anchorRe u = Some (group1 m, rest m)"
    by blast
  from exec_at_SomeD[OF this] obtain t1 t2 where
    "t2 \<in> set (rxm (grp anchorRe) t1)" "group1 m = take (length t1 - length t2) t1"
    by blast
  with numeral_capture[of t2 _ t1] m(2) show ?thesis
    by (simp add: anchorRe_def)
qed

section \<open>The association rules\<close>

lemma updateChapter_eq:
  "updateChapter parts p cur =
     (case filter (\<lambda>part. snd part < p) parts of [] \<Rightarrow> cur | hs \<Rightarrow> fst (last hs))"
  unfolding updateChapter_def
proof (induction parts arbitrary: cur)
  case Nil
  show ?case by simp
next
  case (Cons x xs)
  show ?case
    by (cases "filter (\<lambda>part. snd part < p) xs") (simp_all add: Cons)
qed

lemma filter_less_mono:
  assumes "p0 \<le> (p::nat)" and "filter (\<lambda>part. snd part < p) parts = []"
  shows "filter (\<lambda>part. snd part < p0) parts = []"
  using assms by (auto simp: filter_empty_conv)

lemma updateChapter_spec:
  assumes "p0 \<le> p"
  shows "updateChapter parts p (spec_chapter parts p0) = spec_chapter parts p"
proof (cases "filter (\<lambda>part. snd part < p) parts")
  case Nil
  with filter_less_mono[OF assms Nil] show ?thesis
    by (simp add: updateChapter_eq spec_chapter_def)
next
  case (Cons h hs)
  then show ?thesis
    by (simp add: updateChapter_eq spec_chapter_def)
qed

lemma nearestNote_spec: "nearestNote (rev mns) p = spec_title mns p"
proof (induction mns rule: rev_induct)
  case Nil
  show ?case by (simp add: spec_title_def)
next
  case (snoc x xs)
  then show ?case
    by (cases "filter (\<lambda>mn. snd mn < p \<and> p - snd mn < 2000) xs")
       (auto simp: spec_title_def)
qed

section \<open>The section loop\<close>

lemma anchorRegions_Nil: "anchorRegions html [] = []"
  by (simp add: anchorRegions_def)

lemma anchorRegions_Cons:
  "anchorRegions html (a # as) =
     (a, case as of [] \<Rightarrow> length html | next # _ \<Rightarrow> snd next) # anchorRegions html as"
  by (cases as) (simp_all add: anchorRegions_def)

lemma length_anchorRegions: "length (anchorRegions html as) = length as"
  by (simp add: anchorRegions_def)

lemma map_fst_anchorRegions: "map fst (anchorRegions html as) = as"
  by (induction as) (simp_all add: anchorRegions_Nil anchorRegions_Cons)

lemma sectionLoop_fold:
  assumes "\<forall>a\<in>set as. p0 \<le> snd a" and "sorted_wrt (\<le>) (map snd as)"
  shows "snd (sectionLoop html parts mns as (spec_chapter parts p0, secs)) =
         fold store (map (regionEntry html parts mns) (filter (retained html) (anchorRegions html as))) secs"
  using assms
proof (induction as arbitrary: p0 secs)
  case Nil
  show ?case by (simp add: anchorRegions_Nil)
next
  case (Cons a as)
  let ?nx = "case as of [] \<Rightarrow> length html | next # _ \<Rightarrow> snd next"
  from Cons.prems have p0: "p0 \<le> snd a" and le: "\<forall>b\<in>set as. snd a \<le> snd b"
    and srt: "sorted_wrt (\<le>) (map snd as)"
    by auto
  note ih = Cons.IH[OF le srt]
  have ch: "updateChapter parts (snd a) (spec_chapter parts p0) = spec_chapter parts (snd a)"
    by (rule updateChapter_spec[OF p0])
  have nn: "nearestNote (rev mns) (snd a) = spec_title mns (snd a)"
    by (rule nearestNote_spec)
  show ?case
  proof (cases "length (sectionText html a ?nx) < 10")
    case True
    then have "\<not> retained html (a, ?nx)" by (simp add: retained_def)
    with True show ?thesis
      by (simp add: anchorRegions_Cons Let_def ch ih)
  next
    case False
    then have "retained html (a, ?nx)" by (simp add: retained_def)
    with False show ?thesis
      by (simp add: anchorRegions_Cons Let_def ch nn ih regionEntry_def store_def)
  qed
qed

lemma spec_chapter_0: "spec_chapter parts 0 = []"
  by (simp add: spec_chapter_def)

lemma extractSections_eq:
  assumes "sectionAnchors html = Some anchors" and "partPositions html = Some parts"
    and "marginalNotes html = Some mns"
  shows "extractSections html =
         Some (fold store (map (regionEntry html parts mns)
                 (filter (retained html) (anchorRegions html anchors))) [])"
proof (cases "anchors = []")
  case True
  with assms show ?thesis
    by (simp add: extractSections_def anchorRegions_Nil)
next
  case False
  from sectionAnchors_sorted[OF assms(1)] have "sorted_wrt (\<le>) (map snd anchors)"
    by (rule sorted_wrt_mono_rel[rotated]) simp
  from sectionLoop_fold[OF _ this, of 0 html parts mns "[]"] False assms show ?thesis
    by (simp add: extractSections_def spec_chapter_0)
qed

section \<open>Association lists\<close>

lemma distinct_store: "distinct (map fst al) \<Longrightarrow> distinct (map fst (store e al))"
  by (simp add: store_def distinct_update)

lemma distinct_fold_store: "distinct (map fst al) \<Longrightarrow> distinct (map fst (fold store es al))"
  by (induction es arbitrary: al) (simp_all add: distinct_store)

lemma map_of_fold_store:
  "map_of (fold store es al) k =
     (case filter (\<lambda>e. fst e = k) es of [] \<Rightarrow> map_of al k | xs \<Rightarrow> Some (snd (last xs)))"
proof (induction es arbitrary: al)
  case Nil
  show ?case by simp
next
  case (Cons e es)
  have step: "map_of (store e al) k = (if fst e = k then Some (snd e) else map_of al k)"
    by (simp add: store_def update_conv')
  show ?case
  proof (cases "filter (\<lambda>e. fst e = k) es")
    case Nil
    then show ?thesis
      by (cases "fst e = k") (simp_all add: Cons.IH step)
  next
    case (Cons x xs)
    then show ?thesis
      by (cases "fst e = k") (simp_all add: Cons.IH)
  qed
qed

lemma set_update_sub: "set (AList.update k v al) \<subseteq> insert (k, v) (set al)"
  by (induction al) auto

lemma set_fold_store: "set (fold store es al) \<subseteq> set es \<union> set al"
proof (induction es arbitrary: al)
  case Nil
  show ?case by simp
next
  case (Cons e es)
  have "set (store e al) \<subseteq> insert e (set al)"
    using set_update_sub[of "fst e" "snd e" al] by (simp add: store_def)
  with Cons[of "store e al"] show ?case by auto
qed

lemma filter_key_distinct:
  "distinct (map fst al) \<Longrightarrow>
   filter (\<lambda>e. fst e = k) al = (case map_of al k of None \<Rightarrow> [] | Some v \<Rightarrow> [(k, v)])"
proof (induction al)
  case Nil
  show ?case by simp
next
  case (Cons e al)
  obtain k' v' where e: "e = (k', v')" by (cases e)
  from Cons.prems have notin: "k' \<notin> fst ` set al" and d: "distinct (map fst al)"
    by (auto simp: e)
  show ?case
  proof (cases "k' = k")
    case True
    with notin have "filter (\<lambda>e. fst e = k) al = []"
      by (auto simp: filter_empty_conv)
    with True show ?thesis by (simp add: e)
  next
    case False
    with Cons.IH[OF d] show ?thesis by (simp add: e)
  qed
qed

section \<open>Keys in the order of their first insertion\<close>

lemma keys_store:
  "map fst (store e al) = (if fst e \<in> set (map fst al) then map fst al else map fst al @ [fst e])"
  by (simp add: store_def update_keys)

lemma keys_fold_store_snoc:
  "map fst (fold store (es @ [e]) al) =
     (if fst e \<in> set (map fst (fold store es al)) then map fst (fold store es al)
      else map fst (fold store es al) @ [fst e])"
  by (simp only: fold_append comp_apply fold.simps id_apply keys_store)

lemma set_keys_fold_store: "set (map fst (fold store es [])) = set (map fst es)"
proof (induction es rule: rev_induct)
  case Nil
  show ?case by simp
next
  case (snoc e es)
  then show ?case
    unfolding keys_fold_store_snoc by auto
qed

lemma keys_fold_store: "map fst (fold store es []) = rev (remdups (rev (map fst es)))"
proof (induction es rule: rev_induct)
  case Nil
  show ?case by simp
next
  case (snoc e es)
  have "fst e \<in> set (map fst (fold store es [])) \<longleftrightarrow> fst e \<in> set (rev (map fst es))"
    unfolding set_keys_fold_store by simp
  then show ?case
    unfolding keys_fold_store_snoc by (simp add: snoc)
qed

section \<open>Schedules\<close>

lemma substring_0: "substring s 0 n = take n s"
  by (simp add: substring_def)

lemma those_map_Some:
  "\<forall>x\<in>set xs. \<exists>y. f x = Some y \<Longrightarrow> those (map f xs) = Some (map (\<lambda>x. the (f x)) xs)"
  by (induction xs) auto

lemma prefix_scheduleKey: "prefix (js ''sched-'') (scheduleKey toLowerCase l @ r)"
  by (simp add: scheduleKey_def)

lemma headingProvisions_inv:
  "p \<in> set (headingProvisions toLowerCase blk l t hs) \<Longrightarrow> sched_inv blk p"
proof (induction hs)
  case Nil
  then show ?case by simp
next
  case (Cons h hs)
  let ?c = "stripHtml (substring blk (snd h)
              (case hs of [] \<Rightarrow> length blk | next # _ \<Rightarrow> snd next))"
  from Cons.prems consider (head) "10 < length ?c"
      "p = \<lparr>provision_ref = scheduleKey toLowerCase l @ js ''-'' @
               (case exec_at refRe (fst h) of Some refMatch \<Rightarrow> fst refMatch
                | None \<Rightarrow> substring (fst h) 0 20),
             p_chapter = Some (scheduleChapter l t),
             p_section = (case exec_at refRe (fst h) of Some refMatch \<Rightarrow> fst refMatch
                | None \<Rightarrow> substring (fst h) 0 20),
             title = fst h, content = substring ?c 0 8000\<rparr>"
    | (tail) "p \<in> set (headingProvisions toLowerCase blk l t hs)"
    by (auto simp: Let_def split: if_splits)
  then show ?case
  proof cases
    case head
    have "prefix (js ''sched-'') (provision_ref p)"
      unfolding head(2) by (simp add: prefix_scheduleKey)
    moreover have "content p = take 8000 ?c"
      unfolding head(2) by (simp add: substring_0)
    ultimately show ?thesis
      unfolding sched_inv_def using head(1) by blast
  next
    case tail
    then show ?thesis by (rule Cons.IH)
  qed
qed

lemma scheduleProvisions_total: "\<exists>ps. scheduleProvisions toLowerCase blk = Some ps"
  by (simp add: scheduleProvisions_def exec_loop_total Let_def split: option.splits)

lemma scheduleProvisions_inv:
  assumes "scheduleProvisions toLowerCase blk = Some ps" and "p \<in> set ps"
  shows "sched_inv blk p"
proof (cases "search labelRe 0 blk")
  case None
  with assms show ?thesis by (simp add: scheduleProvisions_def)
next
  case (Some labelMatch)
  let ?l = "stripHtml (group1 labelMatch)"
  let ?t = "case search schedTitleRe 0 blk of Some titleMatch \<Rightarrow> stripHtml (group1 titleMatch)
            | None \<Rightarrow> []"
  let ?c = "stripHtml (replaceAll histDivRe [] blk)"
  show ?thesis
  proof (cases "map marker (scan headingRe 0 blk) = []")
    case False
    with assms Some have "p \<in> set (headingProvisions toLowerCase blk ?l ?t (map marker (scan headingRe 0 blk)))"
      by (simp add: scheduleProvisions_def exec_loop_total Let_def)
    then show ?thesis by (rule headingProvisions_inv)
  next
    case True
    with assms Some have c: "10 < length ?c"
      and p: "p = \<lparr>provision_ref = scheduleKey toLowerCase ?l, p_chapter = Some (scheduleChapter ?l ?t),
                    p_section = ?l, title = (if ?t \<noteq> [] then ?t else ?l),
                    content = substring ?c 0 8000\<rparr>"
      by (auto simp: scheduleProvisions_def exec_loop_total Let_def split: if_splits)
    have "prefix (js ''sched-'') (provision_ref p)"
      unfolding p using prefix_scheduleKey[of _ ?l "[]"] by simp
    moreover have "content p = take 8000 ?c"
      unfolding p by (simp add: substring_0)
    ultimately show ?thesis
      unfolding sched_inv_def using c by blast
  qed
qed

lemma extractSchedules_eq:
  "extractSchedules toLowerCase html =
     Some (concat (map (\<lambda>m. the (scheduleProvisions toLowerCase (group1 m))) (scan scheduleRe 0 html)), [])"
proof -
  have "those (map (\<lambda>m. scheduleProvisions toLowerCase (group1 m)) (scan scheduleRe 0 html)) =
        Some (map (\<lambda>m. the (scheduleProvisions toLowerCase (group1 m))) (scan scheduleRe 0 html))"
    by (rule those_map_Some) (simp add: scheduleProvisions_total)
  then show ?thesis
    by (simp add: extractSchedules_def exec_loop_total)
qed

lemma extractSchedules_inv:
  assumes "extractSchedules toLowerCase html = Some (scheds, defs)" and "p \<in> set scheds"
  shows "\<exists>blk. sched_inv blk p"
proof -
  from assms have "p \<in> set (concat (map (\<lambda>m. the (scheduleProvisions toLowerCase (group1 m)))
      (scan scheduleRe 0 html)))"
    by (simp add: extractSchedules_eq)
  then obtain m :: rmatch where "p \<in> set (the (scheduleProvisions toLowerCase (group1 m)))"
    by auto
  moreover from scheduleProvisions_total obtain ps where
    "scheduleProvisions toLowerCase (group1 m) = Some ps" by blast
  ultimately show ?thesis
    using scheduleProvisions_inv by fastforce
qed

section \<open>Definitions\<close>

lemma definitionsOf_source:
  "d \<in> set (definitionsOf n ms) \<Longrightarrow> source_provision d = Some (js ''s'' @ n)"
  by (induction ms) (auto simp: Let_def split: option.splits if_splits)

lemma definitionsOf_pairs:
  "map (\<lambda>d. (def_term d, def_definition d)) (definitionsOf n ms) = List.map_filter definedPair ms"
  by (induction ms) (auto simp: Let_def definedPair_def split: option.splits)

lemma extractDefinitions_eq:
  "extractDefinitions html n = Some (definitionsOf n (scan defRe 0 html))"
  by (simp add: extractDefinitions_def exec_loop_total)

section \<open>The assembled document\<close>

lemma extractSections_total:
  "extractSections html =
     Some (fold store (map (regionEntry html (the (partPositions html)) (the (marginalNotes html)))
             (filter (retained html) (anchorRegions html (the (sectionAnchors html))))) [])"
  by (rule extractSections_eq) (simp_all add: sectionAnchors_eq partPositions_eq marginalNotes_eq)

lemma parse_ok:
  assumes "\<not> soft404 html"
  shows "\<exists>r. parseFullTextHtml toLowerCase html act out = Some (r, out) \<and>
           provisions r = map sectionProvision (the (extractSections html)) @
                          fst (the (extractSchedules toLowerCase html)) \<and>
           definitions r = definitionsOf (js ''2'') (scan defRe 0 html)"
  using assms
  by (simp add: parseFullTextHtml_def extractSections_total extractDefinitions_eq
      extractSchedules_eq Let_def)

lemma parse_404:
  assumes "soft404 html"
  shows "\<exists>r out'. parseFullTextHtml toLowerCase html act out = Some (r, out') \<and>
           provisions r = [] \<and> definitions r = []"
  using assms by (simp add: parseFullTextHtml_def)

section \<open>The provision of a section number\<close>

lemma sched_ref_not_section:
  assumes "prefix (js ''sched-'') ref" and "is_digit c"
  shows "ref \<noteq> js ''s'' @ c # g"
proof
  assume "ref = js ''s'' @ c # g"
  with assms(1) have "c = 99"
    by (simp add: js_def prefix_def)
  with assms(2) show False by (simp add: is_digit_def)
qed

lemma provision_ref_sectionProvision [simp]:
  "provision_ref (sectionProvision e) = js ''s'' @ fst e"
  by (cases e) (simp add: sectionProvision_def)

lemma filter_sections:
  "filter (\<lambda>p. provision_ref p = js ''s'' @ k) (map sectionProvision S) =
   map sectionProvision (filter (\<lambda>e. fst e = k) S)"
  by (induction S) simp_all

lemma fst_regionEntry [simp]: "fst (regionEntry html parts mns region) = fst (fst region)"
  by (simp add: regionEntry_def)

lemma filter_entries:
  "filter (\<lambda>e. fst e = k) (map (regionEntry html parts mns) (filter (retained html) regions)) =
   map (regionEntry html parts mns)
     (filter (\<lambda>region. fst (fst region) = k \<and> retained html region) regions)"
  by (induction regions) simp_all

lemma extractSections_lookup:
  assumes "sectionAnchors html = Some anchors" and "partPositions html = Some parts"
    and "marginalNotes html = Some mns"
  shows "filter (\<lambda>e. fst e = k) (the (extractSections html)) =
         (case occurrences html k anchors of
            [] \<Rightarrow> []
          | occ \<Rightarrow> [regionEntry html parts mns (last occ)])"
proof -
  let ?E = "map (regionEntry html parts mns) (filter (retained html) (anchorRegions html anchors))"
  have S: "the (extractSections html) = fold store ?E []"
    by (simp add: extractSections_eq[OF assms])
  have d: "distinct (map fst (fold store ?E []))"
    by (rule distinct_fold_store) simp
  have E: "filter (\<lambda>e. fst e = k) ?E = map (regionEntry html parts mns) (occurrences html k anchors)"
    by (simp add: filter_entries occurrences_def)
  show ?thesis
  proof (cases "occurrences html k anchors")
    case Nil
    with E show ?thesis
      by (simp add: S filter_key_distinct[OF d] map_of_fold_store)
  next
    case (Cons x xs)
    then have ne: "occurrences html k anchors \<noteq> []" by simp
    then have "last (occurrences html k anchors) \<in> set (occurrences html k anchors)"
      by (rule last_in_set)
    then have k: "fst (fst (last (occurrences html k anchors))) = k"
      by (simp add: occurrences_def)
    have "map_of (fold store ?E []) k =
          Some (snd (last (map (regionEntry html parts mns) (occurrences html k anchors))))"
      using ne
      by (cases "map (regionEntry html parts mns) (occurrences html k anchors)")
         (simp_all add: map_of_fold_store E)
    then have "map_of (fold store ?E []) k =
          Some (snd (regionEntry html parts mns (last (occurrences html k anchors))))"
      using ne by (simp add: last_map)
    moreover have "(k, snd (regionEntry html parts mns (last (occurrences html k anchors)))) =
          regionEntry html parts mns (last (occurrences html k anchors))"
      using k by (simp add: prod_eq_iff)
    ultimately show ?thesis
      using Cons by (simp add: S filter_key_distinct[OF d])
  qed
qed

lemma schedules_no_section_ref:
  assumes "is_digit c"
  shows "filter (\<lambda>p. provision_ref p = js ''s'' @ c # g) (fst (the (extractSchedules toLowerCase html))) = []"
proof -
  have "provision_ref p \<noteq> js ''s'' @ c # g" if "p \<in> set (fst (the (extractSchedules toLowerCase html)))" for p
  proof -
    from that extractSchedules_inv[of toLowerCase html "fst (the (extractSchedules toLowerCase html))" "[]" p]
    obtain blk where "sched_inv blk p"
      by (auto simp: extractSchedules_eq)
    then have "prefix (js ''sched-'') (provision_ref p)"
      by (simp add: sched_inv_def)
    from sched_ref_not_section[OF this assms] show ?thesis .
  qed
  then show ?thesis by (simp add: filter_empty_conv)
qed

lemma section_lookup:
  assumes "\<not> soft404 html" and "sectionAnchors html = Some anchors"
    and "partPositions html = Some parts" and "marginalNotes html = Some mns"
    and "k \<in> fst ` set anchors"
  shows "\<exists>r. parseFullTextHtml toLowerCase html act out = Some (r, out) \<and>
           filter (\<lambda>p. provision_ref p = js ''s'' @ k) (provisions r) =
           (case occurrences html k anchors of
              [] \<Rightarrow> []
            | occ \<Rightarrow> [sectionProvision (regionEntry html parts mns (last occ))])"
proof -
  from parse_ok[OF assms(1), of toLowerCase act out] obtain r where
    r: "parseFullTextHtml toLowerCase html act out = Some (r, out)"
       "provisions r = map sectionProvision (the (extractSections html)) @
                       fst (the (extractSchedules toLowerCase html))"
    by blast
  from assms(5) obtain a where "a \<in> set anchors" "k = fst a" by auto
  with anchor_num_digit[OF assms(2)] obtain c g where k: "k = c # g" "is_digit c"
    by metis
  have "filter (\<lambda>p. provision_ref p = js ''s'' @ k) (provisions r) =
        map sectionProvision (filter (\<lambda>e. fst e = k) (the (extractSections html)))"
    unfolding r(2) filter_append filter_sections
    using schedules_no_section_ref[OF k(2), of g toLowerCase html] by (simp add: k(1))
  also have "\<dots> = (case occurrences html k anchors of
              [] \<Rightarrow> []
            | occ \<Rightarrow> [sectionProvision (regionEntry html parts mns (last occ))])"
    unfolding extractSections_lookup[OF assms(2,3,4)] by (simp split: list.splits)
  finally show ?thesis using r(1) by blast
qed

lemma match_lit_self: "match_lit f l (l @ s) = [s]"
  by (induction l) simp_all

lemma str_includes_append: "str_includes (ps @ sub @ ss) sub"
proof (induction ps)
  case Nil
  show ?case
  proof (cases "sub @ ss")
    case Nil
    then show ?thesis by simp
  next
    case (Cons c cs)
    have "match_lit id sub (sub @ ss) = [ss]" by (rule match_lit_self)
    with Cons show ?thesis by simp
  qed
next
  case (Cons p ps)
  then show ?case by simp
qed

section \<open>Evaluation on a given document\<close>

text \<open>
  The rules that compute the functions above on a document written out, by rewriting. A
  bound value is computed before it is used.
\<close>

lemmas rx_eval = Opt_def Plus_def Chr_def NotChr_def Any_def Dot_def Space_def Digit_def
  is_space_def is_digit_def is_line_terminator_def canonicalize_def js_def
  rxm.simps search.simps scan.simps replaceAll.simps replaceFirst.simps replaceStart_def
  exec_at_def trim_def substring_def Let_def

lemmas re_defs = titleRe_def currentToRe_def anchorRe_def partHead_def partRe_def mnRe_def
  histDivRe_def histUlRe_def mnParaRe_def partTailRe_def schedTailRe_def anchorResidueRe_def
  leadingNumRe_def trailingTagRe_def defRe_def dfnRe_def scheduleRe_def labelRe_def
  schedTitleRe_def headingRe_def refRe_def

lemma bind_weak_cong: "x = y \<Longrightarrow> Option.bind x f = Option.bind y f"
  by simp

lemmas eval_cong = let_weak_cong bind_weak_cong

lemma scheduleProvisions_scan:
  "scheduleProvisions toLowerCase scheduleHtml =
     (case search labelRe 0 scheduleHtml of
        None \<Rightarrow> Some []
      | Some labelMatch \<Rightarrow>
          (let scheduleLabel = stripHtml (group1 labelMatch);
               scheduleTitle = (case search schedTitleRe 0 scheduleHtml of
                                  Some titleMatch \<Rightarrow> stripHtml (group1 titleMatch)
                                | None \<Rightarrow> []);
               headingPositions = map marker (scan headingRe 0 scheduleHtml)
           in if headingPositions \<noteq> []
              then Some (headingProvisions toLowerCase scheduleHtml scheduleLabel scheduleTitle headingPositions)
              else (let cleanedHtml = replaceAll histDivRe [] scheduleHtml;
                        content = stripHtml cleanedHtml
                    in Some (if length content > 10
                             then [\<lparr>provision_ref = scheduleKey toLowerCase scheduleLabel,
                                     p_chapter = Some (scheduleChapter scheduleLabel scheduleTitle),
                                     p_section = scheduleLabel,
                                     title = (if scheduleTitle \<noteq> [] then scheduleTitle
                                              else scheduleLabel),
                                     content = substring content 0 8000\<rparr>]
                             else []))))"
  by (simp add: scheduleProvisions_def exec_loop_total Let_def split: option.splits)

section \<open>The properties of the specification\<close>

text \<open>
  C2. A page that contains one of the two failure markers, with anything before and after
  it, gives the result that carries the static fields of the catalog entry alone: the
  description is the catalog title, and there are no provisions and no definitions.
\<close>

theorem soft404_short_circuit:
  assumes "html = before @ js ''Page not Found'' @ after \<or>
           html = before @ js ''Error 404'' @ after"
  shows "\<exists>out'. parseFullTextHtml toLowerCase html act out =
           Some (\<lparr>act_id = entry_id act, act_type = statute, act_title = entry_title act,
                   title_en = entry_title act, short_name = shortName act,
                   act_status = entry_status act, issued_date = issuedDate act,
                   in_force_date = inForceDate act, act_url = entry_url act,
                   description = Some (entry_title act), provisions = [],
                   definitions = []\<rparr>, out')"
proof -
  from assms have "soft404 html"
    unfolding soft404_def using str_includes_append by blast
  then show ?thesis by (simp add: parseFullTextHtml_def)
qed

theorem soft404_short_circuit_witness:
  \<open>map_option (\<lambda>x. (provisions (fst x), definitions (fst x), description (fst x)))
     (parseFullTextHtml toLowerCaseLatin1 (js ''<h1>Error 404</h1><a id="s-1">1</a> Short title of the Act'') pipeda [])
   = Some ([], [], Some (entry_title pipeda))\<close>
  using soft404_short_circuit[of \<open>js ''<h1>Error 404</h1><a id="s-1">1</a> Short title of the Act''\<close>
      \<open>js ''<h1>''\<close> \<open>js ''</h1><a id="s-1">1</a> Short title of the Act''\<close>
      toLowerCaseLatin1 pipeda "[]"]
  by (auto simp: js_def)

text \<open>
  C8. The result is a function of the page and the catalog entry alone: the function
  returns for every input, and what it returns does not depend on the state of the console,
  the only thing outside its arguments that it touches.
\<close>

theorem parseFullTextHtml_deterministic:
  "(\<exists>r. map_option fst (parseFullTextHtml toLowerCase html act out1) = Some r \<and>
         map_option fst (parseFullTextHtml toLowerCase html act out2) = Some r)"
proof (cases "soft404 html")
  case True
  then show ?thesis by (simp add: parseFullTextHtml_def)
next
  case False
  from parse_ok[OF False, of toLowerCase act out1] parse_ok[OF False, of toLowerCase act out2]
  show ?thesis
    by (simp add: parseFullTextHtml_def False extractSections_total extractDefinitions_eq
      extractSchedules_eq Let_def)
qed

lemma sorted_last_max:
  fixes xs :: "('a \<times> nat) list"
  assumes "sorted_wrt (<) (map snd xs)" and "x \<in> set xs"
  shows "snd x \<le> snd (last xs)"
  using assms
proof (induction xs)
  case Nil
  then show ?case by simp
next
  case (Cons y ys)
  show ?case
  proof (cases "ys = []")
    case True
    with Cons.prems show ?thesis by simp
  next
    case False
    then have l: "last ys \<in> set ys" by (rule last_in_set)
    from Cons.prems(1) have lt: "\<forall>z\<in>set ys. snd y < snd z" and srt: "sorted_wrt (<) (map snd ys)"
      by auto
    show ?thesis
    proof (cases "x = y")
      case True
      with lt l False show ?thesis by (simp add: less_imp_le)
    next
      case False
      with Cons.prems(2) have "x \<in> set ys" by simp
      from Cons.IH[OF srt this] \<open>ys \<noteq> []\<close> show ?thesis by simp
    qed
  qed
qed

lemma sorted_filter_last_max:
  fixes xs :: "('a \<times> nat) list"
  assumes "sorted_wrt (<) (map snd xs)" and "x \<in> set xs" and "P x"
  shows "snd x \<le> snd (last (filter P xs))"
proof -
  from assms(1) have "sorted_wrt (\<lambda>a b. snd a < snd b) (filter P xs)"
    unfolding sorted_wrt_map by (rule sorted_wrt_filter)
  then have "sorted_wrt (<) (map snd (filter P xs))"
    by (simp add: sorted_wrt_map)
  moreover from assms(2,3) have "x \<in> set (filter P xs)" by simp
  ultimately show ?thesis by (rule sorted_last_max)
qed

lemma section_last_occurrence:
  assumes "\<not> soft404 html" and "sectionAnchors html = Some anchors"
    and "partPositions html = Some parts" and "marginalNotes html = Some mns"
    and "occurrences html (fst a) anchors = earlier @ [(a, nx)]"
  shows "\<exists>r. parseFullTextHtml toLowerCase html act out = Some (r, out) \<and>
           filter (\<lambda>p. provision_ref p = js ''s'' @ fst a) (provisions r) =
             [sectionProvision (regionEntry html parts mns (a, nx))]"
proof -
  have "(a, nx) \<in> set (occurrences html (fst a) anchors)"
    unfolding assms(5) by simp
  then have "(a, nx) \<in> set (anchorRegions html anchors)"
    by (simp add: occurrences_def)
  then have "a \<in> set (map fst (anchorRegions html anchors))"
    by force
  then have "fst a \<in> fst ` set anchors"
    by (simp add: map_fst_anchorRegions)
  from section_lookup[OF assms(1-4) this, of toLowerCase act out] obtain r where
    r: "parseFullTextHtml toLowerCase html act out = Some (r, out)"
       "filter (\<lambda>p. provision_ref p = js ''s'' @ fst a) (provisions r) =
          (case occurrences html (fst a) anchors of
             [] \<Rightarrow> []
           | occ \<Rightarrow> [sectionProvision (regionEntry html parts mns (last occ))])"
    by blast
  have "filter (\<lambda>p. provision_ref p = js ''s'' @ fst a) (provisions r) =
        [sectionProvision (regionEntry html parts mns (a, nx))]"
    unfolding r(2) assms(5) by (cases earlier) simp_all
  with r(1) show ?thesis by blast
qed

text \<open>
  C9 (amended). For a section number that occurs at one anchor or at several, the result
  has at most one provision with its key. There is none when no occurrence is retained;
  otherwise title, chapter and content are those of the last occurrence, in the order of
  the document, whose text has at least 10 code units: an occurrence with a shorter text is
  skipped and overwrites nothing.
\<close>

theorem repeated_anchor_last_retained:
  assumes "\<not> soft404 html" and "sectionAnchors html = Some anchors"
    and "partPositions html = Some parts" and "marginalNotes html = Some mns"
    and "k \<in> fst ` set anchors"
  shows "\<exists>r out'. parseFullTextHtml toLowerCase html act out = Some (r, out') \<and>
           filter (\<lambda>p. provision_ref p = js ''s'' @ k) (provisions r) =
             (case occurrences html k anchors of
                [] \<Rightarrow> []
              | occ \<Rightarrow>
                  [\<lparr>provision_ref = js ''s'' @ k,
                    p_chapter = (if spec_chapter parts (snd (fst (last occ))) = [] then None
                                 else Some (spec_chapter parts (snd (fst (last occ))))),
                    p_section = k,
                    title = spec_title mns (snd (fst (last occ))),
                    content = take 8000 (sectionText html (fst (last occ)) (snd (last occ)))\<rparr>])"
proof -
  from section_lookup[OF assms, of toLowerCase act out] obtain r where
    r: "parseFullTextHtml toLowerCase html act out = Some (r, out)"
       "filter (\<lambda>p. provision_ref p = js ''s'' @ k) (provisions r) =
          (case occurrences html k anchors of
             [] \<Rightarrow> []
           | occ \<Rightarrow> [sectionProvision (regionEntry html parts mns (last occ))])"
    by blast
  show ?thesis
  proof (cases "occurrences html k anchors")
    case Nil
    with r show ?thesis by simp
  next
    case (Cons x xs)
    then have "last (occurrences html k anchors) \<in> set (occurrences html k anchors)"
      by simp
    then have "fst (fst (last (occurrences html k anchors))) = k"
      by (simp add: occurrences_def)
    with r Cons show ?thesis
      by (simp add: sectionProvision_def regionEntry_def)
  qed
qed

text \<open>
  C4 (amended). The provision of a section number is made at the last anchor with that
  number whose text is retained; an earlier anchor with the same number has no provision of
  its own. Take such a last retained anchor. The chapter of the provision of its number is
  the label of the last heading marker whose offset is strictly before the offset of the
  anchor, which is the one with the greatest such offset; the chapter is absent when no
  heading marker precedes the anchor (or when that label is the empty string).
\<close>

theorem chapter_is_last_preceding_heading:
  assumes "\<not> soft404 html" and "sectionAnchors html = Some anchors"
    and "partPositions html = Some parts" and "marginalNotes html = Some mns"
    and "occurrences html (fst a) anchors = earlier @ [(a, nx)]"
    and "hs = filter (\<lambda>h. snd h < snd a) parts"
  shows "\<exists>r out' p. parseFullTextHtml toLowerCase html act out = Some (r, out') \<and>
           filter (\<lambda>p. provision_ref p = js ''s'' @ fst a) (provisions r) = [p] \<and>
           (hs = [] \<longrightarrow> p_chapter p = None) \<and>
           (hs \<noteq> [] \<longrightarrow>
              p_chapter p = (if fst (last hs) = [] then None else Some (fst (last hs))) \<and>
              (\<forall>h\<in>set parts. snd h < snd a \<longrightarrow> snd h \<le> snd (last hs)))"
proof -
  from section_last_occurrence[OF assms(1-5), of toLowerCase act out] obtain r where
    r: "parseFullTextHtml toLowerCase html act out = Some (r, out)"
       "filter (\<lambda>p. provision_ref p = js ''s'' @ fst a) (provisions r) =
          [sectionProvision (regionEntry html parts mns (a, nx))]"
    by blast
  let ?p = "sectionProvision (regionEntry html parts mns (a, nx))"
  have ch: "p_chapter ?p = (if spec_chapter parts (snd a) = [] then None
                            else Some (spec_chapter parts (snd a)))"
    by (simp add: sectionProvision_def regionEntry_def)
  have 1: "hs = [] \<longrightarrow> p_chapter ?p = None"
    unfolding ch by (simp add: spec_chapter_def assms(6))
  have 2: "hs \<noteq> [] \<longrightarrow> p_chapter ?p = (if fst (last hs) = [] then None else Some (fst (last hs)))"
    unfolding ch by (cases hs) (simp_all add: spec_chapter_def assms(6)[symmetric])
  have 3: "\<forall>h\<in>set parts. snd h < snd a \<longrightarrow> snd h \<le> snd (last hs)"
  proof (intro ballI impI)
    fix h
    assume h: "h \<in> set parts" "snd h < snd a"
    have "snd h \<le> snd (last (filter (\<lambda>h. snd h < snd a) parts))"
      by (rule sorted_filter_last_max[OF partPositions_sorted[OF assms(3)] h(1)]) (rule h(2))
    then show "snd h \<le> snd (last hs)" by (simp only: assms(6))
  qed
  show ?thesis
  proof (intro exI conjI impI)
    show "parseFullTextHtml toLowerCase html act out = Some (r, out)" by (rule r(1))
    show "filter (\<lambda>p. provision_ref p = js ''s'' @ fst a) (provisions r) = [?p]" by (rule r(2))
    show "p_chapter ?p = None" if "hs = []" using 1 that by simp
    show "p_chapter ?p = (if fst (last hs) = [] then None else Some (fst (last hs)))" if "hs \<noteq> []"
      using 2 that by simp
    show "\<forall>h\<in>set parts. snd h < snd a \<longrightarrow> snd h \<le> snd (last hs)" by (rule 3)
  qed
qed

text \<open>
  C5 (amended). The provision of a section number is made at the last anchor with that
  number whose text is retained; an earlier anchor with the same number has no provision of
  its own. Take such a last retained anchor. The marginal notes that are kept are not empty
  and are not the bare placeholder. The title of the provision of its number is the text of
  the nearest kept note before the anchor when that note is less than 2000 code units
  before it, and the empty string otherwise: a note 2000 code units or more before the
  anchor is never the title.
\<close>

theorem title_is_nearest_note_within_2000:
  assumes "\<not> soft404 html" and "sectionAnchors html = Some anchors"
    and "partPositions html = Some parts" and "marginalNotes html = Some mns"
    and "occurrences html (fst a) anchors = earlier @ [(a, nx)]"
    and "ns = filter (\<lambda>mn. snd mn < snd a \<and> snd a - snd mn < 2000) mns"
  shows "\<exists>r out' p. parseFullTextHtml toLowerCase html act out = Some (r, out') \<and>
           filter (\<lambda>p. provision_ref p = js ''s'' @ fst a) (provisions r) = [p] \<and>
           (\<forall>mn\<in>set mns. fst mn \<noteq> [] \<and> fst mn \<noteq> js ''Marginal note:'') \<and>
           (ns = [] \<longrightarrow> title p = []) \<and>
           (ns \<noteq> [] \<longrightarrow>
              title p = fst (last ns) \<and> last ns \<in> set mns \<and>
              snd (last ns) < snd a \<and> snd a - snd (last ns) < 2000 \<and>
              (\<forall>mn\<in>set mns. snd mn < snd a \<longrightarrow> snd mn \<le> snd (last ns)))"
proof -
  from section_last_occurrence[OF assms(1-5), of toLowerCase act out] obtain r where
    r: "parseFullTextHtml toLowerCase html act out = Some (r, out)"
       "filter (\<lambda>p. provision_ref p = js ''s'' @ fst a) (provisions r) =
          [sectionProvision (regionEntry html parts mns (a, nx))]"
    by blast
  let ?p = "sectionProvision (regionEntry html parts mns (a, nx))"
  have t: "title ?p = spec_title mns (snd a)"
    by (simp add: sectionProvision_def regionEntry_def)
  from assms(4) have 0: "\<forall>mn\<in>set mns. fst mn \<noteq> [] \<and> fst mn \<noteq> js ''Marginal note:''"
    by (auto simp: marginalNotes_eq)
  have 1: "ns = [] \<longrightarrow> title ?p = []"
    unfolding t by (simp add: spec_title_def assms(6))
  have 2: "ns \<noteq> [] \<longrightarrow> title ?p = fst (last ns)"
    unfolding t by (cases ns) (simp_all add: spec_title_def assms(6)[symmetric])
  have 3: "last ns \<in> set mns \<and> snd (last ns) < snd a \<and> snd a - snd (last ns) < 2000"
    if "ns \<noteq> []"
  proof -
    from that have "last ns \<in> set ns" by (rule last_in_set)
    then show ?thesis unfolding assms(6) by simp
  qed
  have 4: "snd mn \<le> snd (last ns)" if ne: "ns \<noteq> []" and mn: "mn \<in> set mns" "snd mn < snd a" for mn
  proof (cases "snd a - snd mn < 2000")
    case True
    have "snd mn \<le> snd (last (filter (\<lambda>mn. snd mn < snd a \<and> snd a - snd mn < 2000) mns))"
      by (rule sorted_filter_last_max[OF marginalNotes_sorted[OF assms(4)] mn(1)])
         (simp add: mn(2) True)
    then show ?thesis by (simp only: assms(6))
  next
    case False
    with 3[OF ne] mn show ?thesis by arith
  qed
  show ?thesis
  proof (intro exI conjI impI)
    show "parseFullTextHtml toLowerCase html act out = Some (r, out)" by (rule r(1))
    show "filter (\<lambda>p. provision_ref p = js ''s'' @ fst a) (provisions r) = [?p]" by (rule r(2))
    show "\<forall>mn\<in>set mns. fst mn \<noteq> [] \<and> fst mn \<noteq> js ''Marginal note:''" by (rule 0)
    show "title ?p = []" if "ns = []" using 1 that by simp
    show "title ?p = fst (last ns)" if "ns \<noteq> []" using 2 that by simp
    show "last ns \<in> set mns" if "ns \<noteq> []" using 3 that by simp
    show "snd (last ns) < snd a" if "ns \<noteq> []" using 3 that by simp
    show "snd a - snd (last ns) < 2000" if "ns \<noteq> []" using 3 that by simp
    show "\<forall>mn\<in>set mns. snd mn < snd a \<longrightarrow> snd mn \<le> snd (last ns)" if "ns \<noteq> []"
      using 4 that by blast
  qed
qed

section \<open>Section numbers are numerals\<close>

lemma rxm_Star_Cls:
  "t \<in> set (rxm (Star (Cls p)) s) \<Longrightarrow> \<exists>ds. s = ds @ t \<and> list_all p ds"
proof (induction "length s" arbitrary: s rule: less_induct)
  case less
  from iffD1[OF rxm_Star_mem less.prems] consider "t = s"
    | u where "u \<in> set (rxm (Cls p) s)" "length u < length s" "t \<in> set (rxm (Star (Cls p)) u)"
    by blast
  then show ?case
  proof cases
    case 1
    then have "s = [] @ t \<and> list_all p []" by simp
    then show ?thesis by blast
  next
    case 2
    from 2(1) obtain c where c: "s = c # u" "p c"
      unfolding rxm_Cls_mem by blast
    from less.hyps[OF 2(2,3)] obtain ds where "u = ds @ t" "list_all p ds"
      by blast
    with c have "s = (c # ds) @ t \<and> list_all p (c # ds)" by simp
    then show ?thesis by blast
  qed
qed

lemma rxm_Plus_Digit:
  assumes "t \<in> set (rxm (Plus Digit) s)"
  shows "\<exists>ds. s = ds @ t \<and> ds \<noteq> [] \<and> list_all is_digit ds"
proof -
  from assms obtain u where u: "u \<in> set (rxm (Cls is_digit) s)"
    "t \<in> set (rxm (Star (Cls is_digit)) u)"
    by (auto simp: Plus_def Digit_def)
  from u(1) obtain c where c: "s = c # u" "is_digit c"
    unfolding rxm_Cls_mem by blast
  from rxm_Star_Cls[OF u(2)] obtain ds where "u = ds @ t" "list_all is_digit ds"
    by blast
  with c have "s = (c # ds) @ t \<and> c # ds \<noteq> [] \<and> list_all is_digit (c # ds)" by simp
  then show ?thesis by blast
qed

lemma is_numeral_digits:
  assumes "ds \<noteq> []" and "list_all is_digit ds"
  shows "is_numeral ds"
proof -
  from assms(2) have tw: "takeWhile is_digit ds = ds" and dw: "dropWhile is_digit ds = []"
    by (simp_all add: list_all_iff)
  show ?thesis
    unfolding is_numeral_def tw dw using assms(1) by simp
qed

lemma is_numeral_decimal:
  assumes "ds \<noteq> []" and "list_all is_digit ds" and "es \<noteq> []" and "list_all is_digit es"
  shows "is_numeral (ds @ 46 # es)"
proof -
  have n: "\<not> is_digit 46" by (simp add: is_digit_def)
  from assms(2) have tw: "takeWhile is_digit (ds @ 46 # es) = ds"
    and dw: "dropWhile is_digit (ds @ 46 # es) = 46 # es"
    using n by (simp_all add: list_all_iff)
  show ?thesis
    unfolding is_numeral_def tw dw using assms(1,3,4) by simp
qed

lemma numeral_capture_shape:
  assumes "t2 \<in> set (rxm (Seq (Plus Digit) (Opt (Seq (Lit (js ''.'')) (Plus Digit)))) t1)"
  shows "is_numeral (take (length t1 - length t2) t1)"
proof -
  from assms obtain u where u: "u \<in> set (rxm (Plus Digit) t1)"
    "t2 \<in> set (rxm (Opt (Seq (Lit (js ''.'')) (Plus Digit))) u)"
    by auto
  from rxm_Plus_Digit[OF u(1)] obtain ds where ds: "t1 = ds @ u" "ds \<noteq> []" "list_all is_digit ds"
    by blast
  from u(2) consider "t2 = u"
    | v where "v \<in> set (rxm (Lit (js ''.'')) u)" "t2 \<in> set (rxm (Plus Digit) v)"
    by (auto simp: Opt_def)
  then show ?thesis
  proof cases
    case 1
    with ds show ?thesis by (simp add: is_numeral_digits)
  next
    case 2
    from 2(1) have "u = 46 # v"
      by (cases u) (auto simp: js_def split: if_splits)
    moreover from rxm_Plus_Digit[OF 2(2)] obtain es where
      "v = es @ t2" "es \<noteq> []" "list_all is_digit es"
      by blast
    ultimately have "t1 = (ds @ 46 # es) @ t2" "is_numeral (ds @ 46 # es)"
      using ds by (simp_all add: is_numeral_decimal)
    then show ?thesis by simp
  qed
qed

lemma anchor_num_numeral:
  assumes "sectionAnchors html = Some anchors" and "a \<in> set anchors"
  shows "is_numeral (fst a)"
proof -
  from assms obtain m where m: "m \<in> set (scan anchorRe 0 html)" "fst a = group1 m"
    by (auto simp: sectionAnchors_eq)
  from scan_mem[OF m(1)] obtain u where "exec_at anchorRe u = Some (group1 m, rest m)"
    by blast
  from exec_at_SomeD[OF this] obtain t1 t2 where
    "t2 \<in> set (rxm (grp anchorRe) t1)" "group1 m = take (length t1 - length t2) t1"
    by blast
  with numeral_capture_shape[of t2 t1] m(2) show ?thesis
    by (simp add: anchorRe_def)
qed

lemma is_numeral_digit: "is_numeral k \<Longrightarrow> \<exists>c g. k = c # g \<and> is_digit c"
  by (cases k) (auto simp: is_numeral_def split: if_splits)

section \<open>What the section map holds\<close>

lemma extractSections_entries:
  assumes "sectionAnchors html = Some anchors" and "extractSections html = Some S"
    and "e \<in> set S"
  shows "\<exists>region\<in>set (anchorRegions html anchors). retained html region \<and>
           fst e = fst (fst region) \<and>
           s_content (snd e) = take 8000 (sectionText html (fst region) (snd region))"
proof -
  let ?parts = "the (partPositions html)" and ?mns = "the (marginalNotes html)"
  let ?E = "map (regionEntry html ?parts ?mns) (filter (retained html) (anchorRegions html anchors))"
  from assms(1,2) have "S = fold store ?E []"
    by (simp add: extractSections_total)
  with assms(3) set_fold_store[of ?E "[]"] have "e \<in> set ?E" by auto
  then obtain region where "region \<in> set (anchorRegions html anchors)" "retained html region"
    "e = regionEntry html ?parts ?mns region"
    by auto
  then show ?thesis
    by (auto simp: regionEntry_def)
qed

lemma extractSections_keys:
  assumes "sectionAnchors html = Some anchors" and "extractSections html = Some S"
  shows "distinct (map fst S)"
    and "map fst S = rev (remdups (rev (map (\<lambda>region. fst (fst region))
           (filter (retained html) (anchorRegions html anchors)))))"
proof -
  let ?parts = "the (partPositions html)" and ?mns = "the (marginalNotes html)"
  let ?E = "map (regionEntry html ?parts ?mns) (filter (retained html) (anchorRegions html anchors))"
  from assms have S: "S = fold store ?E []"
    by (simp add: extractSections_total)
  show "distinct (map fst S)"
    unfolding S by (rule distinct_fold_store) simp
  show "map fst S = rev (remdups (rev (map (\<lambda>region. fst (fst region))
           (filter (retained html) (anchorRegions html anchors)))))"
    unfolding S keys_fold_store by (simp add: comp_def)
qed

lemma section_refs_distinct:
  assumes "distinct (map fst S)"
  shows "distinct (map provision_ref (map sectionProvision S))"
proof -
  have "inj_on (\<lambda>e. provision_ref (sectionProvision e)) (set S)"
  proof (rule inj_onI)
    fix x y
    assume "x \<in> set S" "y \<in> set S"
      "provision_ref (sectionProvision x) = provision_ref (sectionProvision y)"
    then have "fst x = fst y" by simp
    with assms \<open>x \<in> set S\<close> \<open>y \<in> set S\<close> show "x = y"
      by (meson distinct_map inj_onD)
  qed
  moreover from assms have "distinct S" by (simp add: distinct_map)
  ultimately show ?thesis
    by (simp add: distinct_map comp_def)
qed

lemma parse_parts:
  assumes "\<not> soft404 html"
  shows "\<exists>r anchors S scheds.
           parseFullTextHtml toLowerCase html act out = Some (r, out) \<and>
           sectionAnchors html = Some anchors \<and> extractSections html = Some S \<and>
           extractSchedules toLowerCase html = Some (scheds, []) \<and>
           provisions r = map sectionProvision S @ scheds \<and>
           definitions r = definitionsOf (js ''2'') (scan defRe 0 html)"
  using parse_ok[OF assms, of toLowerCase act out]
  by (auto simp: extractSections_total extractSchedules_eq sectionAnchors_eq)

text \<open>
  C1 (amended). The provisions are those of the sections followed by those of the
  schedules. The keys of the section provisions are pairwise distinct, each is the letter s
  followed by the section number, a numeral (digits, optionally a point and digits); each
  key of a schedule provision starts with \<open>sched-\<close>, and so no section key is a schedule
  key. (Two schedule provisions may have the same key.)
\<close>

theorem section_keys_distinct_and_apart:
  "\<exists>r out' secs scheds.
     parseFullTextHtml toLowerCase html act out = Some (r, out') \<and>
     provisions r = secs @ scheds \<and>
     distinct (map provision_ref secs) \<and>
     (\<forall>p\<in>set secs. \<exists>k. is_numeral k \<and> provision_ref p = js ''s'' @ k \<and> p_section p = k) \<and>
     (\<forall>q\<in>set scheds. prefix (js ''sched-'') (provision_ref q)) \<and>
     (\<forall>p\<in>set secs. \<forall>q\<in>set scheds. provision_ref p \<noteq> provision_ref q) \<and>
     (\<not> soft404 html \<longrightarrow>
        (\<exists>S. extractSections html = Some S \<and> secs = map sectionProvision S) \<and>
        extractSchedules toLowerCase html = Some (scheds, []))"
proof (cases "soft404 html")
  case True
  from parse_404[OF True, of toLowerCase act out] obtain r out' where
    "parseFullTextHtml toLowerCase html act out = Some (r, out')" "provisions r = []"
    by blast
  show ?thesis
  proof (intro exI conjI impI)
    show "parseFullTextHtml toLowerCase html act out = Some (r, out')" by fact
    show "provisions r = [] @ []" using \<open>provisions r = []\<close> by simp
    show "distinct (map provision_ref [])" by simp
    show "\<forall>p\<in>set []. \<exists>k. is_numeral k \<and> provision_ref p = js ''s'' @ k \<and> p_section p = k"
      by simp
    show "\<forall>q\<in>set []. prefix (js ''sched-'') (provision_ref q)" by simp
    show "\<forall>p\<in>set []. \<forall>q\<in>set []. provision_ref p \<noteq> provision_ref q" by simp
    show "extractSections html = Some []" if "\<not> soft404 html"
      using that True by simp
    show "[] = map sectionProvision []" by simp
    show "extractSchedules toLowerCase html = Some ([], [])" if "\<not> soft404 html"
      using that True by simp
  qed
next
  case False
  from parse_parts[OF False, of toLowerCase act out] obtain r anchors S scheds where
    r: "parseFullTextHtml toLowerCase html act out = Some (r, out)"
       "sectionAnchors html = Some anchors" "extractSections html = Some S"
       "extractSchedules toLowerCase html = Some (scheds, [])"
       "provisions r = map sectionProvision S @ scheds"
    by blast
  let ?secs = "map sectionProvision S"
  have d: "distinct (map provision_ref ?secs)"
    by (rule section_refs_distinct) (rule extractSections_keys(1)[OF r(2,3)])
  have sec: "\<exists>k. is_numeral k \<and> provision_ref p = js ''s'' @ k \<and> p_section p = k"
    if "p \<in> set ?secs" for p
  proof -
    from that obtain e where e: "e \<in> set S" "p = sectionProvision e" by auto
    from extractSections_entries[OF r(2,3) e(1)] obtain region where
      "region \<in> set (anchorRegions html anchors)" "fst e = fst (fst region)"
      by blast
    then have "fst region \<in> set (map fst (anchorRegions html anchors))" by force
    then have "fst region \<in> set anchors" by (simp add: map_fst_anchorRegions)
    from anchor_num_numeral[OF r(2) this] \<open>fst e = fst (fst region)\<close>
    have "is_numeral (fst e)" by simp
    moreover have "provision_ref p = js ''s'' @ fst e" "p_section p = fst e"
      unfolding e(2) by (cases e, simp add: sectionProvision_def)+
    ultimately show ?thesis by blast
  qed
  have sch: "prefix (js ''sched-'') (provision_ref q)" if "q \<in> set scheds" for q
    using extractSchedules_inv[OF r(4) that] by (auto simp: sched_inv_def)
  have apart: "provision_ref p \<noteq> provision_ref q" if "p \<in> set ?secs" "q \<in> set scheds" for p q
  proof -
    from sec[OF that(1)] obtain k where "is_numeral k" "provision_ref p = js ''s'' @ k"
      by blast
    with is_numeral_digit[of k] obtain c g where "is_digit c" "provision_ref p = js ''s'' @ c # g"
      by auto
    with sched_ref_not_section[OF sch[OF that(2)], of c g] show ?thesis by simp
  qed
  show ?thesis
  proof (intro exI conjI impI)
    show "parseFullTextHtml toLowerCase html act out = Some (r, out)" by (rule r(1))
    show "provisions r = ?secs @ scheds" by (rule r(5))
    show "distinct (map provision_ref ?secs)" by (rule d)
    show "\<forall>p\<in>set ?secs. \<exists>k. is_numeral k \<and> provision_ref p = js ''s'' @ k \<and> p_section p = k"
      using sec by blast
    show "\<forall>q\<in>set scheds. prefix (js ''sched-'') (provision_ref q)"
      using sch by blast
    show "\<forall>p\<in>set ?secs. \<forall>q\<in>set scheds. provision_ref p \<noteq> provision_ref q"
      using apart by blast
    show "extractSections html = Some S" by (rule r(3))
    show "?secs = map sectionProvision S" by (rule refl)
    show "extractSchedules toLowerCase html = Some (scheds, [])" by (rule r(4))
  qed
qed

text \<open>
  C3. Every provision of the result, of a section or of a schedule, holds the first 8000
  code units of an extracted text of at least 10 code units: the text of the region of an
  anchor, or the normalised text of a schedule block or of a part of one. So its content
  has at most 8000 code units.
\<close>

theorem content_bounds:
  "\<exists>r out'. parseFullTextHtml toLowerCase html act out = Some (r, out') \<and>
     (\<forall>p\<in>set (provisions r).
        length (content p) \<le> 8000 \<and>
        (\<exists>text. 10 \<le> length text \<and> content p = take 8000 text \<and>
           ((\<exists>a nx. text = sectionText html a nx) \<or> (\<exists>h. text = stripHtml h))))"
proof (cases "soft404 html")
  case True
  from parse_404[OF True, of toLowerCase act out] show ?thesis by auto
next
  case False
  from parse_parts[OF False, of toLowerCase act out] obtain r anchors S scheds where
    r: "parseFullTextHtml toLowerCase html act out = Some (r, out)"
       "sectionAnchors html = Some anchors" "extractSections html = Some S"
       "extractSchedules toLowerCase html = Some (scheds, [])"
       "provisions r = map sectionProvision S @ scheds"
    by blast
  have "length (content p) \<le> 8000 \<and>
        (\<exists>text. 10 \<le> length text \<and> content p = take 8000 text \<and>
           ((\<exists>a nx. text = sectionText html a nx) \<or> (\<exists>h. text = stripHtml h)))"
    if "p \<in> set (provisions r)" for p
  proof -
    from that r(5) consider e where "e \<in> set S" "p = sectionProvision e" | "p \<in> set scheds"
      by auto
    then show ?thesis
    proof cases
      case 1
      from extractSections_entries[OF r(2,3) 1(1)] obtain region where
        "retained html region"
        "s_content (snd e) = take 8000 (sectionText html (fst region) (snd region))"
        by blast
      moreover have "content p = s_content (snd e)"
        unfolding 1(2) by (cases e) (simp add: sectionProvision_def)
      moreover have "\<exists>a nx. sectionText html (fst region) (snd region) = sectionText html a nx"
        by blast
      ultimately have "10 \<le> length (sectionText html (fst region) (snd region)) \<and>
        content p = take 8000 (sectionText html (fst region) (snd region)) \<and>
        ((\<exists>a nx. sectionText html (fst region) (snd region) = sectionText html a nx) \<or>
         (\<exists>h. sectionText html (fst region) (snd region) = stripHtml h))"
        by (simp add: retained_def)
      then have "\<exists>text. 10 \<le> length text \<and> content p = take 8000 text \<and>
           ((\<exists>a nx. text = sectionText html a nx) \<or> (\<exists>h. text = stripHtml h))"
        by (rule exI)
      moreover from this have "length (content p) \<le> 8000" by auto
      ultimately show ?thesis by (rule conjI[rotated])
    next
      case 2
      from extractSchedules_inv[OF r(4) 2] obtain blk c where
        "10 < length c" "content p = take 8000 c"
        "c = stripHtml (replaceAll histDivRe [] blk) \<or> (\<exists>pos nx. c = stripHtml (substring blk pos nx))"
        unfolding sched_inv_def by blast
      then have "10 \<le> length c \<and> content p = take 8000 c \<and>
          ((\<exists>a nx. c = sectionText html a nx) \<or> (\<exists>h. c = stripHtml h))"
        by auto
      then have "\<exists>text. 10 \<le> length text \<and> content p = take 8000 text \<and>
           ((\<exists>a nx. text = sectionText html a nx) \<or> (\<exists>h. text = stripHtml h))"
        by (rule exI)
      moreover from this have "length (content p) \<le> 8000" by auto
      ultimately show ?thesis by (rule conjI[rotated])
    qed
  qed
  with r(1) show ?thesis by blast
qed

text \<open>
  C6. Every definition of the result has the fixed source provision \<open>s2\<close>. When the page
  is not a not-found page, the definitions are those of the definition blocks that have a
  term, one for each such block, in the order in which the blocks stand in the document:
  none is merged with another or left out because its term has been seen before.
\<close>

theorem definitions_fixed_source_in_order:
  "\<exists>r out'. parseFullTextHtml toLowerCase html act out = Some (r, out') \<and>
     (\<forall>d\<in>set (definitions r). source_provision d = Some (js ''s2'')) \<and>
     (\<not> soft404 html \<longrightarrow>
        (\<exists>blocks. exec_loop defRe 0 html = Some blocks \<and>
           sorted_wrt (<) (map index blocks) \<and>
           map (\<lambda>d. (def_term d, def_definition d)) (definitions r) =
             List.map_filter definedPair blocks))"
proof (cases "soft404 html")
  case True
  from parse_404[OF True, of toLowerCase act out] True show ?thesis by auto
next
  case False
  from parse_ok[OF False, of toLowerCase act out] obtain r where
    r: "parseFullTextHtml toLowerCase html act out = Some (r, out)"
       "definitions r = definitionsOf (js ''2'') (scan defRe 0 html)"
    by blast
  have 1: "\<forall>d\<in>set (definitions r). source_provision d = Some (js ''s2'')"
    unfolding r(2) using definitionsOf_source[of _ "js ''2''"] by (auto simp: js_def)
  have 2: "exec_loop defRe 0 html = Some (scan defRe 0 html)"
    by (simp add: exec_loop_total)
  have 3: "sorted_wrt (<) (map index (scan defRe 0 html))"
    using scan_sorted[OF consuming_defRe, of 0 html] by simp
  have 4: "map (\<lambda>d. (def_term d, def_definition d)) (definitions r) =
             List.map_filter definedPair (scan defRe 0 html)"
    unfolding r(2) by (rule definitionsOf_pairs)
  from r(1) 1 2 3 4 show ?thesis by blast
qed

section \<open>The provisions of a schedule block\<close>

lemma headingProvisions_spec:
  "headingProvisions toLowerCase blk l t hs =
     map (headingProvision toLowerCase blk l t)
       (filter (\<lambda>region. 10 < length (headingText blk region)) (anchorRegions blk hs))"
proof (induction hs)
  case Nil
  show ?case by (simp add: anchorRegions_Nil)
next
  case (Cons h hs)
  show ?case
    by (simp add: anchorRegions_Cons Let_def Cons headingText_def headingProvision_def
        headingRef_def substring_0 split: option.splits)
qed

lemma scheduleProvisions_spec:
  "scheduleProvisions toLowerCase blk = Some (blockProvisions toLowerCase blk)"
  by (simp add: scheduleProvisions_scan blockProvisions_def headingProvisions_spec Let_def
      substring_0 split: option.splits)

lemma extractSchedules_spec:
  "extractSchedules toLowerCase html =
     Some (concat (map (\<lambda>m. blockProvisions toLowerCase (group1 m)) (scan scheduleRe 0 html)), [])"
  by (simp add: extractSchedules_eq scheduleProvisions_spec)

lemma headings_sorted: "sorted_wrt (<) (map snd (map marker (scan headingRe 0 blk)))"
  using scan_sorted[OF consuming_headingRe, of 0 blk] by (simp add: comp_def marker_def)

section \<open>The section map, key by key\<close>

lemma alist_by_keys:
  "distinct (map fst al) \<Longrightarrow> al = map (\<lambda>k. (k, the (map_of al k))) (map fst al)"
proof (induction al)
  case Nil
  show ?case by simp
next
  case (Cons e al)
  obtain k v where e: "e = (k, v)" by (cases e)
  from Cons.prems have notin: "k \<notin> set (map fst al)" and d: "distinct (map fst al)"
    by (simp_all add: e)
  have "map (\<lambda>k'. (k', the (map_of (e # al) k'))) (map fst al) =
        map (\<lambda>k'. (k', the (map_of al k'))) (map fst al)"
    using notin by (intro map_cong refl) (auto simp: e)
  with Cons.IH[OF d] show ?case by (simp add: e)
qed

lemma extractSections_by_keys:
  assumes "sectionAnchors html = Some anchors" and "partPositions html = Some parts"
    and "marginalNotes html = Some mns" and "extractSections html = Some S"
  shows "S = map (\<lambda>k. regionEntry html parts mns (last (occurrences html k anchors))) (map fst S)"
proof -
  have d: "distinct (map fst S)" by (rule extractSections_keys(1)[OF assms(1,4)])
  have "(k, the (map_of S k)) = regionEntry html parts mns (last (occurrences html k anchors))"
    if "k \<in> set (map fst S)" for k
  proof -
    from that obtain v where v: "map_of S k = Some v"
      by (metis d map_of_eq_None_iff not_Some_eq set_map)
    have "filter (\<lambda>e. fst e = k) S = [(k, v)]"
      by (simp add: filter_key_distinct[OF d] v)
    moreover have "filter (\<lambda>e. fst e = k) S =
        (case occurrences html k anchors of [] \<Rightarrow> []
         | occ \<Rightarrow> [regionEntry html parts mns (last occ)])"
      using extractSections_lookup[OF assms(1-3), of k] assms(4) by simp
    ultimately have "[(k, v)] = (case occurrences html k anchors of [] \<Rightarrow> []
         | occ \<Rightarrow> [regionEntry html parts mns (last occ)])"
      by simp
    then have "(k, v) = regionEntry html parts mns (last (occurrences html k anchors))"
      by (cases "occurrences html k anchors") simp_all
    with v show ?thesis by simp
  qed
  then have "map (\<lambda>k. (k, the (map_of S k))) (map fst S) =
        map (\<lambda>k. regionEntry html parts mns (last (occurrences html k anchors))) (map fst S)"
    by (intro map_cong refl)
  with alist_by_keys[OF d] show ?thesis by simp
qed

lemma filter_key_unique:
  assumes "distinct (map f xs)" and "x \<in> set xs" and "P x"
  shows "filter (\<lambda>y. f y = f x \<and> P y) xs = [x]"
  using assms
proof (induction xs)
  case Nil
  then show ?case by simp
next
  case (Cons y ys)
  from Cons.prems(1) have notin: "f y \<notin> f ` set ys" and d: "distinct (map f ys)"
    by simp_all
  show ?case
  proof (cases "y = x")
    case True
    have "f z \<noteq> f x" if "z \<in> set ys" for z
      using notin True that by (metis imageI)
    then have "filter (\<lambda>z. f z = f x \<and> P z) ys = []"
      by (simp add: filter_empty_conv)
    with True Cons.prems(3) show ?thesis by simp
  next
    case False
    with Cons.prems(2) have x: "x \<in> set ys" by simp
    with notin have "f y \<noteq> f x" by auto
    with Cons.IH[OF d x Cons.prems(3)] show ?thesis by simp
  qed
qed

lemma extractSections_distinct:
  assumes "sectionAnchors html = Some anchors" and "partPositions html = Some parts"
    and "marginalNotes html = Some mns" and "extractSections html = Some S"
    and "distinct (map fst anchors)"
  shows "S = map (regionEntry html parts mns) (filter (retained html) (anchorRegions html anchors))"
proof -
  let ?R = "filter (retained html) (anchorRegions html anchors)"
  have dr: "distinct (map (\<lambda>region. fst (fst region)) (anchorRegions html anchors))"
    using assms(5) map_fst_anchorRegions[of html anchors]
    by (metis (no_types, lifting) map_map comp_apply map_eq_conv)
  then have "distinct (map (\<lambda>region. fst (fst region)) ?R)"
    by (rule distinct_map_filter)
  then have keys: "map fst S = map (\<lambda>region. fst (fst region)) ?R"
    unfolding extractSections_keys(2)[OF assms(1,4)] by (simp add: distinct_remdups_id)
  have "regionEntry html parts mns (last (occurrences html (fst (fst x)) anchors)) =
        regionEntry html parts mns x" if "x \<in> set ?R" for x
  proof -
    from that have "x \<in> set (anchorRegions html anchors)" "retained html x" by simp_all
    with dr show ?thesis
      using filter_key_unique[of "\<lambda>region. fst (fst region)" "anchorRegions html anchors" x
          "retained html"]
      by (simp add: occurrences_def)
  qed
  then have "map (\<lambda>k. regionEntry html parts mns (last (occurrences html k anchors)))
               (map (\<lambda>region. fst (fst region)) ?R) = map (regionEntry html parts mns) ?R"
    by (simp add: comp_def cong: map_cong)
  with extractSections_by_keys[OF assms(1-4)] keys show ?thesis by simp
qed

text \<open>
  C7 (amended). When the page is not a not-found page, the provisions of the result are
  those of the sections followed by those of the schedule blocks, and the definitions are a
  list of their own. There is one section provision for every section number with a retained
  anchor; the numbers stand in the order in which the retained anchors first bring them,
  and the provision of a number is made from the last retained anchor with that number.
  When no section number occurs twice this is one provision for every retained anchor, in
  the order of the anchors. The schedule provisions follow block after block in the order
  of the document, and inside a block sub-heading after sub-heading in the order of the
  block.
\<close>

theorem provisions_sections_then_schedules:
  assumes "\<not> soft404 html"
  shows "\<exists>r out' anchors parts mns blocks.
           parseFullTextHtml toLowerCase html act out = Some (r, out') \<and>
           sectionAnchors html = Some anchors \<and> sorted_wrt (<) (map snd anchors) \<and>
           partPositions html = Some parts \<and> marginalNotes html = Some mns \<and>
           exec_loop scheduleRe 0 html = Some blocks \<and>
           sorted_wrt (<) (map index blocks) \<and>
           (\<forall>m\<in>set blocks.
              sorted_wrt (<) (map snd (map marker (scan headingRe 0 (group1 m))))) \<and>
           provisions r =
             map (\<lambda>k. sectionProvision
                        (regionEntry html parts mns (last (occurrences html k anchors))))
               (rev (remdups (rev (map (\<lambda>region. fst (fst region))
                  (filter (retained html) (anchorRegions html anchors)))))) @
             concat (map (\<lambda>m. blockProvisions toLowerCase (group1 m)) blocks) \<and>
           (distinct (map fst anchors) \<longrightarrow>
              provisions r =
                map (\<lambda>region. sectionProvision (regionEntry html parts mns region))
                  (filter (retained html) (anchorRegions html anchors)) @
                concat (map (\<lambda>m. blockProvisions toLowerCase (group1 m)) blocks)) \<and>
           extractDefinitions html (js ''2'') = Some (definitions r)"
proof -
  from parse_parts[OF assms, of toLowerCase act out] obtain r anchors S scheds where
    r: "parseFullTextHtml toLowerCase html act out = Some (r, out)"
       "sectionAnchors html = Some anchors" "extractSections html = Some S"
       "extractSchedules toLowerCase html = Some (scheds, [])"
       "provisions r = map sectionProvision S @ scheds"
       "definitions r = definitionsOf (js ''2'') (scan defRe 0 html)"
    by blast
  obtain parts mns where pm: "partPositions html = Some parts" "marginalNotes html = Some mns"
    by (simp add: partPositions_eq marginalNotes_eq)
  let ?blocks = "scan scheduleRe 0 html"
  let ?R = "filter (retained html) (anchorRegions html anchors)"
  let ?nums = "rev (remdups (rev (map (\<lambda>region. fst (fst region)) ?R)))"
  from r(4) have scheds: "scheds = concat (map (\<lambda>m. blockProvisions toLowerCase (group1 m)) ?blocks)"
    by (simp add: extractSchedules_spec)
  have keys: "map fst S = ?nums"
    by (rule extractSections_keys(2)[OF r(2,3)])
  have "S = map (\<lambda>k. regionEntry html parts mns (last (occurrences html k anchors))) (map fst S)"
    by (rule extractSections_by_keys[OF r(2) pm r(3)])
  then have "S = map (\<lambda>k. regionEntry html parts mns (last (occurrences html k anchors))) ?nums"
    by (simp only: keys)
  then have "map sectionProvision S =
      map sectionProvision
        (map (\<lambda>k. regionEntry html parts mns (last (occurrences html k anchors))) ?nums)"
    by (rule arg_cong)
  then have secs: "map sectionProvision S =
      map (\<lambda>k. sectionProvision (regionEntry html parts mns (last (occurrences html k anchors))))
        ?nums"
    by (simp only: map_map comp_def)
  have secs': "map sectionProvision S =
      map (\<lambda>region. sectionProvision (regionEntry html parts mns region)) ?R"
    if "distinct (map fst anchors)"
  proof -
    have "S = map (regionEntry html parts mns) ?R"
      by (rule extractSections_distinct[OF r(2) pm r(3) that])
    then have "map sectionProvision S = map sectionProvision (map (regionEntry html parts mns) ?R)"
      by (rule arg_cong)
    then show ?thesis by (simp only: map_map comp_def)
  qed
  show ?thesis
  proof (intro exI conjI impI)
    show "parseFullTextHtml toLowerCase html act out = Some (r, out)" by (rule r(1))
    show "sectionAnchors html = Some anchors" by (rule r(2))
    show "sorted_wrt (<) (map snd anchors)" by (rule sectionAnchors_sorted[OF r(2)])
    show "partPositions html = Some parts" by (rule pm(1))
    show "marginalNotes html = Some mns" by (rule pm(2))
    show "exec_loop scheduleRe 0 html = Some ?blocks" by (simp add: exec_loop_total)
    show "sorted_wrt (<) (map index ?blocks)"
      using scan_sorted[OF consuming_scheduleRe, of 0 html] by simp
    show "\<forall>m\<in>set ?blocks. sorted_wrt (<) (map snd (map marker (scan headingRe 0 (group1 m))))"
      by (intro ballI headings_sorted)
    show "provisions r =
        map (\<lambda>k. sectionProvision (regionEntry html parts mns (last (occurrences html k anchors))))
          ?nums @
        concat (map (\<lambda>m. blockProvisions toLowerCase (group1 m)) ?blocks)"
      unfolding r(5) scheds secs by (rule refl)
    show "provisions r =
        map (\<lambda>region. sectionProvision (regionEntry html parts mns region)) ?R @
        concat (map (\<lambda>m. blockProvisions toLowerCase (group1 m)) ?blocks)"
      if "distinct (map fst anchors)"
      unfolding r(5) scheds secs'[OF that] by (rule refl)
    show "extractDefinitions html (js ''2'') = Some (definitions r)"
      by (simp add: extractDefinitions_eq r(6))
  qed
qed


section \<open>The properties on given documents\<close>

lemmas text_eval = sectionText_def stripHtml_def rx_eval re_defs

lemma pn_len: "length doc_part_note = 117"
  by (simp add: doc_part_note_def js_def)

lemma pn_404: "\<not> soft404 doc_part_note"
  by (simp add: soft404_def doc_part_note_def js_def)

lemma pn_anchors: "sectionAnchors doc_part_note = Some [(js ''1'', 73)]"
  by (simp add: sectionAnchors_eq doc_part_note_def anchorRe_def rx_eval cong: eval_cong)

lemma pn_parts: "partPositions doc_part_note = Some [(js ''PART 1'', 0)]"
  by (simp add: partPositions_eq doc_part_note_def marker_def partRe_def partHead_def
      stripHtml_def rx_eval cong: eval_cong)

lemma pn_notes: "marginalNotes doc_part_note = Some [(js ''Short title'', 31)]"
  by (simp add: marginalNotes_eq doc_part_note_def marker_def mnRe_def stripHtml_def rx_eval
      cong: eval_cong)

lemma pn_text: "sectionText doc_part_note (js ''1'', 73) 117 = js ''1 This Act is the Test Act.''"
  by (simp add: doc_part_note_def text_eval cong: eval_cong)

lemma pn_occ:
  "occurrences doc_part_note (js ''1'') [(js ''1'', 73)] = [((js ''1'', 73), 117)]"
  by (simp add: occurrences_def anchorRegions_def retained_def pn_len pn_text) (simp add: js_def)

theorem content_bounds_witness:
  "\<exists>r out' p. parseFullTextHtml toLowerCaseLatin1 doc_part_note pipeda [] = Some (r, out') \<and>
     p \<in> set (provisions r) \<and> provision_ref p = js ''s1'' \<and>
     10 \<le> length (content p) \<and> length (content p) \<le> 8000"
proof -
  from section_last_occurrence[OF pn_404 pn_anchors pn_parts pn_notes,
      of "(js ''1'', 73)" "[]" 117 toLowerCaseLatin1 pipeda "[]"] pn_occ
  obtain r p where r: "parseFullTextHtml toLowerCaseLatin1 doc_part_note pipeda [] = Some (r, [])"
    and "filter (\<lambda>p. provision_ref p = js ''s'' @ js ''1'') (provisions r) = [p]"
    by auto
  then have "p \<in> set (filter (\<lambda>p. provision_ref p = js ''s'' @ js ''1'') (provisions r))"
    by simp
  then have p: "p \<in> set (provisions r)" "provision_ref p = js ''s1''"
    by (simp_all add: js_def)
  from content_bounds[of toLowerCaseLatin1 doc_part_note pipeda "[]"] r p(1)
  have "length (content p) \<le> 8000 \<and> (\<exists>text. 10 \<le> length text \<and> content p = take 8000 text)"
    by auto
  then have "10 \<le> length (content p) \<and> length (content p) \<le> 8000"
    by auto
  with r p show ?thesis by blast
qed

lemma rp_len: "length doc_repeated = 57"
  by (simp add: doc_repeated_def js_def)

lemma rp_404: "\<not> soft404 doc_repeated"
  by (simp add: soft404_def doc_repeated_def js_def)

lemma rp_anchors: "sectionAnchors doc_repeated = Some [(js ''1'', 3), (js ''1'', 41)]"
  by (simp add: sectionAnchors_eq doc_repeated_def anchorRe_def rx_eval cong: eval_cong)

lemma rp_parts: "partPositions doc_repeated = Some []"
  by (simp add: partPositions_eq doc_repeated_def marker_def partRe_def partHead_def
      stripHtml_def rx_eval cong: eval_cong)

lemma rp_notes: "marginalNotes doc_repeated = Some []"
  by (simp add: marginalNotes_eq doc_repeated_def marker_def mnRe_def stripHtml_def rx_eval
      cong: eval_cong)

lemma rp_text1: "sectionText doc_repeated (js ''1'', 3) 41 = js ''1 Short title of Act.''"
  by (simp add: doc_repeated_def text_eval cong: eval_cong)

lemma rp_text2: "sectionText doc_repeated (js ''1'', 41) 57 = js ''1 x''"
  by (simp add: doc_repeated_def text_eval cong: eval_cong)

lemma rp_schedules: "extractSchedules toLowerCaseLatin1 doc_repeated = Some ([], [])"
  by (simp add: extractSchedules_eq doc_repeated_def scheduleRe_def rx_eval cong: eval_cong)

lemma rp_sections:
  "extractSections doc_repeated =
     Some [(js ''1'', \<lparr>s_title = [], s_content = js ''1 Short title of Act.'', s_chapter = []\<rparr>)]"
  unfolding extractSections_eq[OF rp_anchors rp_parts rp_notes]
  by (simp add: anchorRegions_def retained_def rp_len rp_text1 rp_text2 regionEntry_def
      spec_chapter_def spec_title_def store_def)
     (simp add: js_def)

text \<open>
  A document on which the last occurrence of a section number does not give the provision:
  the number 1 occurs at the offsets 3 and 41, the text of the region of the last occurrence
  is \<open>1 x\<close>, shorter than 10 code units, and the content of the provision is the text
  of the first occurrence.
\<close>

theorem last_occurrence_counterexample:
  "sectionAnchors doc_repeated = Some [(js ''1'', 3), (js ''1'', 41)] \<and>
   sectionText doc_repeated (js ''1'', 41) (length doc_repeated) = js ''1 x'' \<and>
   map content (provisions (fst (the (parseFullTextHtml toLowerCaseLatin1 doc_repeated pipeda [])))) =
     [js ''1 Short title of Act.'']"
proof -
  from parse_ok[OF rp_404, of toLowerCaseLatin1 pipeda "[]"] have
    "map content (provisions (fst (the (parseFullTextHtml toLowerCaseLatin1 doc_repeated pipeda [])))) =
     [js ''1 Short title of Act.'']"
    by (auto simp: rp_sections rp_schedules sectionProvision_def)
  then show ?thesis
    by (simp add: rp_anchors rp_len rp_text2)
qed

lemmas sched_eval = scheduleProvisions_scan marker_def stripHtml_def scheduleKey_def
  scheduleChapter_def toLowerCaseLatin1_def rx_eval re_defs

lemma ts_404: "\<not> soft404 doc_two_schedules"
  by (simp add: soft404_def doc_two_schedules_def js_def)

lemma ts_sections: "extractSections doc_two_schedules = Some []"
  by (simp add: extractSections_def sectionAnchors_eq doc_two_schedules_def anchorRe_def rx_eval
      cong: eval_cong)

lemma ts_blocks:
  \<open>map group1 (scan scheduleRe 0 doc_two_schedules) =
     [js ''<p class="scheduleLabel">SCHEDULE</p>first text here'',
      js ''<p class="scheduleLabel">SCHEDULE</p>other text here'']\<close>
  by (simp add: doc_two_schedules_def scheduleRe_def rx_eval cong: eval_cong)

lemma ts_block1:
  \<open>scheduleProvisions toLowerCaseLatin1 (js ''<p class="scheduleLabel">SCHEDULE</p>first text here'') =
     Some [\<lparr>provision_ref = js ''sched-schedule'', p_chapter = Some (js ''SCHEDULE''),
             p_section = js ''SCHEDULE'', title = js ''SCHEDULE'',
             content = js ''SCHEDULE first text here''\<rparr>]\<close>
  by (simp add: sched_eval cong: eval_cong)

lemma ts_block2:
  \<open>scheduleProvisions toLowerCaseLatin1 (js ''<p class="scheduleLabel">SCHEDULE</p>other text here'') =
     Some [\<lparr>provision_ref = js ''sched-schedule'', p_chapter = Some (js ''SCHEDULE''),
             p_section = js ''SCHEDULE'', title = js ''SCHEDULE'',
             content = js ''SCHEDULE other text here''\<rparr>]\<close>
  by (simp add: sched_eval cong: eval_cong)

lemma ts_schedules:
  "map provision_ref (fst (the (extractSchedules toLowerCaseLatin1 doc_two_schedules))) =
     [js ''sched-schedule'', js ''sched-schedule'']"
proof -
  have "map (\<lambda>m. the (scheduleProvisions toLowerCaseLatin1 (group1 m))) (scan scheduleRe 0 doc_two_schedules) =
        map (\<lambda>g. the (scheduleProvisions toLowerCaseLatin1 g)) (map group1 (scan scheduleRe 0 doc_two_schedules))"
    by (simp add: comp_def)
  then show ?thesis
    unfolding extractSchedules_eq ts_blocks by (simp add: ts_block1 ts_block2)
qed

text \<open>
  A document with two provisions of the same key: two schedule blocks with the same label
  and no sub-heading.
\<close>

theorem schedule_keys_counterexample:
  "map provision_ref (provisions (fst (the (parseFullTextHtml toLowerCaseLatin1 doc_two_schedules pipeda [])))) =
     [js ''sched-schedule'', js ''sched-schedule'']"
  using parse_ok[OF ts_404, of toLowerCaseLatin1 pipeda "[]"]
  by (auto simp: ts_sections ts_schedules)

lemma df_404: "\<not> soft404 doc_definitions"
  by (simp add: soft404_def doc_definitions_def js_def)

lemma df_blocks:
  \<open>map group1 (scan defRe 0 doc_definitions) =
     [js ''<dfn>record</dfn> means a file.'', js ''<dfn>record</dfn> includes a copy.'']\<close>
  by (simp add: doc_definitions_def defRe_def rx_eval cong: eval_cong)

lemma df_pair1:
  \<open>definedPair \<lparr>index = i, group1 = js ''<dfn>record</dfn> means a file.'', rest = t\<rparr> =
     Some (js ''record'', js ''record means a file.'')\<close>
  by (simp add: definedPair_def dfnRe_def stripHtml_def rx_eval cong: eval_cong)

lemma df_pair2:
  \<open>definedPair \<lparr>index = i, group1 = js ''<dfn>record</dfn> includes a copy.'', rest = t\<rparr> =
     Some (js ''record'', js ''record includes a copy.'')\<close>
  by (simp add: definedPair_def dfnRe_def stripHtml_def rx_eval cong: eval_cong)

lemma map_group1_two:
  assumes "map group1 ms = [a, b]"
  shows "\<exists>i t j u. ms = [\<lparr>index = i, group1 = a, rest = t\<rparr>, \<lparr>index = j, group1 = b, rest = u\<rparr>]"
proof -
  from assms obtain m1 m2 where ms: "ms = [m1, m2]" "group1 m1 = a" "group1 m2 = b"
    by (auto simp: map_eq_Cons_conv)
  have "m1 = \<lparr>index = index m1, group1 = a, rest = rest m1\<rparr>"
       "m2 = \<lparr>index = index m2, group1 = b, rest = rest m2\<rparr>"
    using ms(2,3) by simp_all
  with ms(1) show ?thesis by metis
qed

theorem definitions_fixed_source_in_order_witness:
  "\<exists>r out'. parseFullTextHtml toLowerCaseLatin1 doc_definitions pipeda [] = Some (r, out') \<and>
     map (\<lambda>d. (def_term d, def_definition d)) (definitions r) =
       [(js ''record'', js ''record means a file.''), (js ''record'', js ''record includes a copy.'')] \<and>
     map source_provision (definitions r) = [Some (js ''s2''), Some (js ''s2'')]"
proof -
  from definitions_fixed_source_in_order[of toLowerCaseLatin1 doc_definitions pipeda "[]"] df_404
  obtain r out' where r: "parseFullTextHtml toLowerCaseLatin1 doc_definitions pipeda [] = Some (r, out')"
    and src: "\<forall>d\<in>set (definitions r). source_provision d = Some (js ''s2'')"
    and prs: "map (\<lambda>d. (def_term d, def_definition d)) (definitions r) =
                List.map_filter definedPair (scan defRe 0 doc_definitions)"
    by (auto simp: exec_loop_total)
  from map_group1_two[OF df_blocks] obtain i t j u where
    "scan defRe 0 doc_definitions =
       [\<lparr>index = i, group1 = js ''<dfn>record</dfn> means a file.'', rest = t\<rparr>,
        \<lparr>index = j, group1 = js ''<dfn>record</dfn> includes a copy.'', rest = u\<rparr>]"
    by blast
  with prs have prs': "map (\<lambda>d. (def_term d, def_definition d)) (definitions r) =
       [(js ''record'', js ''record means a file.''), (js ''record'', js ''record includes a copy.'')]"
    by (simp add: map_filter_simps df_pair1 df_pair2)
  then obtain d1 d2 where "definitions r = [d1, d2]"
    by (auto simp: map_eq_Cons_conv)
  with src have "map source_provision (definitions r) = [Some (js ''s2''), Some (js ''s2'')]"
    by simp
  with r prs' show ?thesis
    by - (rule exI[of _ r], rule exI[of _ out'], simp)
qed

lemma length_js: "length (js s) = length s"
  by (simp add: js_def)










section \<open>A document with a repeated section number\<close>

lemma da_len: "length docA = 168"
  by (simp add: docA_def js_def)

lemma da_404: "\<not> soft404 docA"
  by (simp add: soft404_def docA_def js_def)

lemma da_anchors: "sectionAnchors docA = Some [(js ''1'', 3), (js ''2'', 40), (js ''1'', 134)]"
  by (simp add: sectionAnchors_eq docA_def anchorRe_def rx_eval cong: eval_cong)

lemma da_parts: "partPositions docA = Some [(js ''P2'', 74)]"
  by (simp add: partPositions_eq docA_def marker_def partRe_def partHead_def
      stripHtml_def rx_eval cong: eval_cong)

lemma da_notes: "marginalNotes docA = Some [(js ''Later'', 101)]"
  by (simp add: marginalNotes_eq docA_def marker_def mnRe_def stripHtml_def rx_eval
      cong: eval_cong)

lemma da_text1: "sectionText docA (js ''1'', 3) 40 = js ''1 First section text.''"
  by (simp add: docA_def text_eval cong: eval_cong)

lemma da_text2: "sectionText docA (js ''2'', 40) 134 = js ''2 Other section text.''"
  by (simp add: docA_def text_eval cong: eval_cong)

lemma da_text3: "sectionText docA (js ''1'', 134) 168 = js ''1 Final section text.''"
  by (simp add: docA_def text_eval cong: eval_cong)

lemma da_regions:
  "filter (retained docA) (anchorRegions docA [(js ''1'', 3), (js ''2'', 40), (js ''1'', 134)]) =
     [((js ''1'', 3), 40), ((js ''2'', 40), 134), ((js ''1'', 134), 168)]"
  by (simp add: anchorRegions_def retained_def da_len da_text1 da_text2 da_text3 length_js)

lemma da_occ1:
  "occurrences docA (js ''1'') [(js ''1'', 3), (js ''2'', 40), (js ''1'', 134)] =
     [((js ''1'', 3), 40), ((js ''1'', 134), 168)]"
  by (simp add: occurrences_def anchorRegions_def retained_def da_len da_text1 da_text2 da_text3
      length_js) (simp add: js_def)

lemma da_occ2:
  "occurrences docA (js ''2'') [(js ''1'', 3), (js ''2'', 40), (js ''1'', 134)] =
     [((js ''2'', 40), 134)]"
  by (simp add: occurrences_def anchorRegions_def retained_def da_len da_text1 da_text2 da_text3
      length_js) (simp add: js_def)

lemma da_schedules: "extractSchedules toLowerCaseLatin1 docA = Some ([], [])"
  by (simp add: extractSchedules_eq docA_def scheduleRe_def rx_eval cong: eval_cong)

lemma da_sections:
  "extractSections docA =
     Some [(js ''1'', \<lparr>s_title = js ''Later'', s_content = js ''1 Final section text.'',
                       s_chapter = js ''P2''\<rparr>),
           (js ''2'', \<lparr>s_title = [], s_content = js ''2 Other section text.'', s_chapter = []\<rparr>)]"
  unfolding extractSections_eq[OF da_anchors da_parts da_notes] da_regions
  by (simp add: regionEntry_def da_text1 da_text2 da_text3 spec_chapter_def spec_title_def
      store_def)
     (simp add: js_def)

lemma da_provisions:
  "provisions (fst (the (parseFullTextHtml toLowerCaseLatin1 docA pipeda []))) =
     [\<lparr>provision_ref = js ''s1'', p_chapter = Some (js ''P2''), p_section = js ''1'',
       title = js ''Later'', content = js ''1 Final section text.''\<rparr>,
      \<lparr>provision_ref = js ''s2'', p_chapter = None, p_section = js ''2'',
       title = [], content = js ''2 Other section text.''\<rparr>]"
  using parse_ok[OF da_404, of toLowerCaseLatin1 pipeda "[]"]
  by (auto simp: da_sections da_schedules sectionProvision_def) (simp_all add: js_def)

text \<open>
  A document on which a retained section anchor has no heading before it and the provision
  of its number has a chapter: the number 1 occurs at the offsets 3 and 134, the only
  heading stands at the offset 74, the text of the anchor at the offset 3 is retained, and
  the provision \<open>s1\<close> has the chapter \<open>P2\<close>.
\<close>

theorem chapter_of_earlier_anchor_counterexample:
  "sectionAnchors docA = Some [(js ''1'', 3), (js ''2'', 40), (js ''1'', 134)] \<and>
   partPositions docA = Some [(js ''P2'', 74)] \<and>
   sectionText docA (js ''1'', 3) 40 = js ''1 First section text.'' \<and>
   spec_chapter [(js ''P2'', 74)] 3 = [] \<and>
   map provision_ref (provisions (fst (the (parseFullTextHtml toLowerCaseLatin1 docA pipeda [])))) =
     [js ''s1'', js ''s2''] \<and>
   map p_chapter (provisions (fst (the (parseFullTextHtml toLowerCaseLatin1 docA pipeda [])))) =
     [Some (js ''P2''), None]"
  by (simp add: da_anchors da_parts da_text1 da_provisions spec_chapter_def)

text \<open>
  On the same document the only marginal note stands at the offset 101, after the anchor at
  the offset 3, whose text is retained; the provision \<open>s1\<close> has the title \<open>Later\<close>.
\<close>

theorem title_of_earlier_anchor_counterexample:
  "sectionAnchors docA = Some [(js ''1'', 3), (js ''2'', 40), (js ''1'', 134)] \<and>
   marginalNotes docA = Some [(js ''Later'', 101)] \<and>
   sectionText docA (js ''1'', 3) 40 = js ''1 First section text.'' \<and>
   spec_title [(js ''Later'', 101)] 3 = [] \<and>
   map provision_ref (provisions (fst (the (parseFullTextHtml toLowerCaseLatin1 docA pipeda [])))) =
     [js ''s1'', js ''s2''] \<and>
   map title (provisions (fst (the (parseFullTextHtml toLowerCaseLatin1 docA pipeda [])))) =
     [js ''Later'', []]"
  by (simp add: da_anchors da_notes da_text1 da_provisions spec_title_def)

text \<open>
  On the same document the section provisions do not stand in the order of the anchors
  from which they are made: the text of the anchor at the offset 134 stands before the text
  of the anchor at the offset 40.
\<close>

theorem anchor_order_counterexample:
  "sectionAnchors docA = Some [(js ''1'', 3), (js ''2'', 40), (js ''1'', 134)] \<and>
   sectionText docA (js ''2'', 40) 134 = js ''2 Other section text.'' \<and>
   sectionText docA (js ''1'', 134) (length docA) = js ''1 Final section text.'' \<and>
   map content (provisions (fst (the (parseFullTextHtml toLowerCaseLatin1 docA pipeda [])))) =
     [js ''1 Final section text.'', js ''2 Other section text.'']"
  by (simp add: da_anchors da_text2 da_text3 da_len da_provisions)

theorem chapter_is_last_preceding_heading_witness:
  "(\<exists>r out' p. parseFullTextHtml toLowerCaseLatin1 docA pipeda [] = Some (r, out') \<and>
      filter (\<lambda>p. provision_ref p = js ''s1'') (provisions r) = [p] \<and>
      p_chapter p = Some (js ''P2'')) \<and>
   (\<exists>r out' p. parseFullTextHtml toLowerCaseLatin1 docA pipeda [] = Some (r, out') \<and>
      filter (\<lambda>p. provision_ref p = js ''s2'') (provisions r) = [p] \<and>
      p_chapter p = None)"
proof
  show "\<exists>r out' p. parseFullTextHtml toLowerCaseLatin1 docA pipeda [] = Some (r, out') \<and>
      filter (\<lambda>p. provision_ref p = js ''s1'') (provisions r) = [p] \<and>
      p_chapter p = Some (js ''P2'')"
    using chapter_is_last_preceding_heading[OF da_404 da_anchors da_parts da_notes,
        of "(js ''1'', 134)" "[((js ''1'', 3), 40)]" 168
           "filter (\<lambda>h. snd h < 134) [(js ''P2'', 74)]" toLowerCaseLatin1 pipeda "[]"]
      da_occ1
    by (auto simp: js_def)
  show "\<exists>r out' p. parseFullTextHtml toLowerCaseLatin1 docA pipeda [] = Some (r, out') \<and>
      filter (\<lambda>p. provision_ref p = js ''s2'') (provisions r) = [p] \<and>
      p_chapter p = None"
    using chapter_is_last_preceding_heading[OF da_404 da_anchors da_parts da_notes,
        of "(js ''2'', 40)" "[]" 134
           "filter (\<lambda>h. snd h < 40) [(js ''P2'', 74)]" toLowerCaseLatin1 pipeda "[]"]
      da_occ2
    by (auto simp: js_def)
qed

theorem title_is_nearest_note_within_2000_witness:
  "(\<exists>r out' p. parseFullTextHtml toLowerCaseLatin1 docA pipeda [] = Some (r, out') \<and>
      filter (\<lambda>p. provision_ref p = js ''s1'') (provisions r) = [p] \<and>
      title p = js ''Later'') \<and>
   (\<exists>r out' p. parseFullTextHtml toLowerCaseLatin1 docA pipeda [] = Some (r, out') \<and>
      filter (\<lambda>p. provision_ref p = js ''s2'') (provisions r) = [p] \<and>
      title p = []) \<and>
   nearestNote [(js ''Short title'', 1)] 2000 = js ''Short title'' \<and>
   nearestNote [(js ''Short title'', 0)] 2000 = []"
proof (intro conjI)
  show "\<exists>r out' p. parseFullTextHtml toLowerCaseLatin1 docA pipeda [] = Some (r, out') \<and>
      filter (\<lambda>p. provision_ref p = js ''s1'') (provisions r) = [p] \<and>
      title p = js ''Later''"
    using title_is_nearest_note_within_2000[OF da_404 da_anchors da_parts da_notes,
        of "(js ''1'', 134)" "[((js ''1'', 3), 40)]" 168
           "filter (\<lambda>mn. snd mn < 134 \<and> 134 - snd mn < 2000) [(js ''Later'', 101)]"
           toLowerCaseLatin1 pipeda "[]"]
      da_occ1
    by (auto simp: js_def)
  show "\<exists>r out' p. parseFullTextHtml toLowerCaseLatin1 docA pipeda [] = Some (r, out') \<and>
      filter (\<lambda>p. provision_ref p = js ''s2'') (provisions r) = [p] \<and>
      title p = []"
    using title_is_nearest_note_within_2000[OF da_404 da_anchors da_parts da_notes,
        of "(js ''2'', 40)" "[]" 134
           "filter (\<lambda>mn. snd mn < 40 \<and> 40 - snd mn < 2000) [(js ''Later'', 101)]"
           toLowerCaseLatin1 pipeda "[]"]
      da_occ2
    by (auto simp: js_def)
  show "nearestNote [(js ''Short title'', 1)] 2000 = js ''Short title''" by simp
  show "nearestNote [(js ''Short title'', 0)] 2000 = []" by simp
qed

theorem repeated_anchor_last_retained_witness:
  "(\<exists>r out'. parseFullTextHtml toLowerCaseLatin1 docA pipeda [] = Some (r, out') \<and>
      filter (\<lambda>p. provision_ref p = js ''s1'') (provisions r) =
        [\<lparr>provision_ref = js ''s1'', p_chapter = Some (js ''P2''), p_section = js ''1'',
          title = js ''Later'', content = js ''1 Final section text.''\<rparr>]) \<and>
   (\<exists>r out'. parseFullTextHtml toLowerCaseLatin1 doc_repeated pipeda [] = Some (r, out') \<and>
      filter (\<lambda>p. provision_ref p = js ''s1'') (provisions r) =
        [\<lparr>provision_ref = js ''s1'', p_chapter = None, p_section = js ''1'',
          title = [], content = js ''1 Short title of Act.''\<rparr>])"
proof
  show "\<exists>r out'. parseFullTextHtml toLowerCaseLatin1 docA pipeda [] = Some (r, out') \<and>
      filter (\<lambda>p. provision_ref p = js ''s1'') (provisions r) =
        [\<lparr>provision_ref = js ''s1'', p_chapter = Some (js ''P2''), p_section = js ''1'',
          title = js ''Later'', content = js ''1 Final section text.''\<rparr>]"
    using repeated_anchor_last_retained[OF da_404 da_anchors da_parts da_notes,
        of "js ''1''" toLowerCaseLatin1 pipeda "[]"]
    by (simp add: da_occ1 da_text3 spec_chapter_def spec_title_def)
       (simp add: js_def spec_chapter_def spec_title_def)
  have rp_occ: "occurrences doc_repeated (js ''1'') [(js ''1'', 3), (js ''1'', 41)] =
      [((js ''1'', 3), 41)]"
    by (simp add: occurrences_def anchorRegions_def retained_def rp_len rp_text1 rp_text2
        length_js)
  show "\<exists>r out'. parseFullTextHtml toLowerCaseLatin1 doc_repeated pipeda [] = Some (r, out') \<and>
      filter (\<lambda>p. provision_ref p = js ''s1'') (provisions r) =
        [\<lparr>provision_ref = js ''s1'', p_chapter = None, p_section = js ''1'',
          title = [], content = js ''1 Short title of Act.''\<rparr>]"
    using repeated_anchor_last_retained[OF rp_404 rp_anchors rp_parts rp_notes,
        of "js ''1''" toLowerCaseLatin1 pipeda "[]"]
    by (simp add: rp_occ rp_text1 spec_chapter_def spec_title_def)
       (simp add: js_def spec_chapter_def spec_title_def)
qed

section \<open>A document with sections, a definition and a schedule\<close>

lemma fl_len: "length doc_full = 252"
  by (simp add: doc_full_def js_def)

lemma fl_404: "\<not> soft404 doc_full"
  by (simp add: soft404_def doc_full_def js_def)

lemma fl_anchors: "sectionAnchors doc_full = Some [(js ''1'', 3), (js ''2'', 35)]"
  by (simp add: sectionAnchors_eq doc_full_def anchorRe_def rx_eval cong: eval_cong)

lemma fl_parts: "partPositions doc_full = Some []"
  by (simp add: partPositions_eq doc_full_def marker_def partRe_def partHead_def
      stripHtml_def rx_eval cong: eval_cong)

lemma fl_notes: "marginalNotes doc_full = Some []"
  by (simp add: marginalNotes_eq doc_full_def marker_def mnRe_def stripHtml_def rx_eval
      cong: eval_cong)

lemma fl_text1: "sectionText doc_full (js ''1'', 3) 35 = js ''1 First section.''"
  by (simp add: doc_full_def text_eval cong: eval_cong)

lemma fl_text2: "sectionText doc_full (js ''2'', 35) 252 = js ''2 Other section. act means it.''"
  by (simp add: doc_full_def text_eval cong: eval_cong)

lemma fl_regions:
  "filter (retained doc_full) (anchorRegions doc_full [(js ''1'', 3), (js ''2'', 35)]) =
     [((js ''1'', 3), 35), ((js ''2'', 35), 252)]"
  by (simp add: anchorRegions_def retained_def fl_len fl_text1 fl_text2 length_js)

lemma fl_blocks:
  \<open>map group1 (scan scheduleRe 0 doc_full) =
     [js ''<p class="scheduleLabel">S</p><p class="SchedHeadL1">1 Heading one</p><p class="SchedHeadL1">2 Heading two</p>'']\<close>
  by (simp add: doc_full_def scheduleRe_def rx_eval cong: eval_cong)

lemma fl_block:
  \<open>scheduleProvisions toLowerCaseLatin1
      (js ''<p class="scheduleLabel">S</p><p class="SchedHeadL1">1 Heading one</p><p class="SchedHeadL1">2 Heading two</p>'') =
     Some [\<lparr>provision_ref = js ''sched-s-1'', p_chapter = Some (js ''S''),
             p_section = js ''1'', title = js ''1 Heading one'',
             content = js ''1 Heading one''\<rparr>,
           \<lparr>provision_ref = js ''sched-s-2'', p_chapter = Some (js ''S''),
             p_section = js ''2'', title = js ''2 Heading two'',
             content = js ''2 Heading two''\<rparr>]\<close>
  by (simp add: sched_eval cong: eval_cong)

lemma fl_definitions:
  "definitionsOf (js ''2'') (scan defRe 0 doc_full) =
     [\<lparr>def_term = js ''act'', def_definition = js ''act means it.'',
       source_provision = Some (js ''s2'')\<rparr>]"
  by (simp add: doc_full_def defRe_def dfnRe_def stripHtml_def rx_eval cong: eval_cong)

lemma fl_occ1:
  "occurrences doc_full (js ''1'') [(js ''1'', 3), (js ''2'', 35)] = [((js ''1'', 3), 35)]"
  by (simp add: occurrences_def anchorRegions_def retained_def fl_len fl_text1 fl_text2
      length_js) (simp add: js_def)

lemma fl_occ2:
  "occurrences doc_full (js ''2'') [(js ''1'', 3), (js ''2'', 35)] = [((js ''2'', 35), 252)]"
  by (simp add: occurrences_def anchorRegions_def retained_def fl_len fl_text1 fl_text2
      length_js) (simp add: js_def)

lemma fl_sections:
  "extractSections doc_full =
     Some [(js ''1'', \<lparr>s_title = [], s_content = js ''1 First section.'', s_chapter = []\<rparr>),
           (js ''2'', \<lparr>s_title = [], s_content = js ''2 Other section. act means it.'',
                       s_chapter = []\<rparr>)]"
  unfolding extractSections_eq[OF fl_anchors fl_parts fl_notes] fl_regions
  by (simp add: regionEntry_def fl_text1 fl_text2 spec_chapter_def spec_title_def store_def)
     (simp add: js_def)

lemma fl_schedules:
  "extractSchedules toLowerCaseLatin1 doc_full =
     Some ([\<lparr>provision_ref = js ''sched-s-1'', p_chapter = Some (js ''S''),
              p_section = js ''1'', title = js ''1 Heading one'',
              content = js ''1 Heading one''\<rparr>,
            \<lparr>provision_ref = js ''sched-s-2'', p_chapter = Some (js ''S''),
              p_section = js ''2'', title = js ''2 Heading two'',
              content = js ''2 Heading two''\<rparr>], [])"
proof -
  have "map (\<lambda>m. the (scheduleProvisions toLowerCaseLatin1 (group1 m))) (scan scheduleRe 0 doc_full) =
        map (\<lambda>g. the (scheduleProvisions toLowerCaseLatin1 g)) (map group1 (scan scheduleRe 0 doc_full))"
    by (simp add: comp_def)
  then show ?thesis
    unfolding extractSchedules_eq fl_blocks by (simp add: fl_block)
qed

theorem provisions_sections_then_schedules_witness:
  "\<exists>r out'. parseFullTextHtml toLowerCaseLatin1 doc_full pipeda [] = Some (r, out') \<and>
     map provision_ref (provisions r) =
       [js ''s1'', js ''s2'', js ''sched-s-1'', js ''sched-s-2''] \<and>
     map content (provisions r) =
       [js ''1 First section.'', js ''2 Other section. act means it.'',
        js ''1 Heading one'', js ''2 Heading two''] \<and>
     map def_term (definitions r) = [js ''act'']"
proof -
  let ?nums = "rev (remdups (rev (map (\<lambda>region. fst (fst region))
      (filter (retained doc_full) (anchorRegions doc_full [(js ''1'', 3), (js ''2'', 35)])))))"
  from provisions_sections_then_schedules[OF fl_404, of toLowerCaseLatin1 pipeda "[]"]
  obtain r out' blocks where r: "parseFullTextHtml toLowerCaseLatin1 doc_full pipeda [] = Some (r, out')"
    and b: "exec_loop scheduleRe 0 doc_full = Some blocks"
    and p: "provisions r =
        map (\<lambda>k. sectionProvision (regionEntry doc_full [] []
                   (last (occurrences doc_full k [(js ''1'', 3), (js ''2'', 35)])))) ?nums @
        concat (map (\<lambda>m. blockProvisions toLowerCaseLatin1 (group1 m)) blocks)"
    and d: "extractDefinitions doc_full (js ''2'') = Some (definitions r)"
    unfolding fl_anchors fl_parts fl_notes by auto
  from b have blocks: "blocks = scan scheduleRe 0 doc_full"
    by (simp add: exec_loop_total)
  have nums: "?nums = [js ''1'', js ''2'']"
    unfolding fl_regions by (simp add: js_def)
  have "concat (map (\<lambda>m. blockProvisions toLowerCaseLatin1 (group1 m)) blocks) =
        concat (map (\<lambda>g. the (scheduleProvisions toLowerCaseLatin1 g)) (map group1 blocks))"
    by (simp add: comp_def scheduleProvisions_spec)
  then have sch: "concat (map (\<lambda>m. blockProvisions toLowerCaseLatin1 (group1 m)) blocks) =
      [\<lparr>provision_ref = js ''sched-s-1'', p_chapter = Some (js ''S''),
        p_section = js ''1'', title = js ''1 Heading one'', content = js ''1 Heading one''\<rparr>,
       \<lparr>provision_ref = js ''sched-s-2'', p_chapter = Some (js ''S''),
        p_section = js ''2'', title = js ''2 Heading two'', content = js ''2 Heading two''\<rparr>]"
    unfolding blocks fl_blocks by (simp add: fl_block)
  have prov: "provisions r =
      [sectionProvision (regionEntry doc_full [] [] ((js ''1'', 3), 35)),
       sectionProvision (regionEntry doc_full [] [] ((js ''2'', 35), 252)),
       \<lparr>provision_ref = js ''sched-s-1'', p_chapter = Some (js ''S''),
        p_section = js ''1'', title = js ''1 Heading one'', content = js ''1 Heading one''\<rparr>,
       \<lparr>provision_ref = js ''sched-s-2'', p_chapter = Some (js ''S''),
        p_section = js ''2'', title = js ''2 Heading two'', content = js ''2 Heading two''\<rparr>]"
    unfolding p nums sch by (simp add: fl_occ1 fl_occ2)
  have refs: "map provision_ref (provisions r) =
      [js ''s1'', js ''s2'', js ''sched-s-1'', js ''sched-s-2'']"
    unfolding prov by (simp add: sectionProvision_def regionEntry_def) (simp add: js_def)
  have conts: "map content (provisions r) =
      [js ''1 First section.'', js ''2 Other section. act means it.'',
       js ''1 Heading one'', js ''2 Heading two'']"
    unfolding prov by (simp add: sectionProvision_def regionEntry_def fl_text1 fl_text2 length_js)
  from d have "definitions r = definitionsOf (js ''2'') (scan defRe 0 doc_full)"
    by (simp add: extractDefinitions_eq)
  then have defs: "map def_term (definitions r) = [js ''act'']"
    by (simp add: fl_definitions)
  from r refs conts defs show ?thesis
    by - (rule exI[of _ r], rule exI[of _ out'], simp)
qed

theorem section_keys_distinct_and_apart_witness:
  "\<exists>r out' secs scheds.
     parseFullTextHtml toLowerCaseLatin1 doc_full pipeda [] = Some (r, out') \<and>
     provisions r = secs @ scheds \<and>
     map provision_ref secs = [js ''s1'', js ''s2''] \<and>
     map provision_ref scheds = [js ''sched-s-1'', js ''sched-s-2''] \<and>
     distinct (map provision_ref secs) \<and>
     list_all (\<lambda>p. is_numeral (p_section p)) secs \<and>
     (\<forall>p\<in>set secs. \<forall>q\<in>set scheds. provision_ref p \<noteq> provision_ref q)"
proof -
  from section_keys_distinct_and_apart[of toLowerCaseLatin1 doc_full pipeda "[]"] fl_404
  obtain r out' secs scheds where
    r: "parseFullTextHtml toLowerCaseLatin1 doc_full pipeda [] = Some (r, out')"
       "provisions r = secs @ scheds"
       "distinct (map provision_ref secs)"
       "\<forall>p\<in>set secs. \<exists>k. is_numeral k \<and> provision_ref p = js ''s'' @ k \<and> p_section p = k"
       "\<forall>p\<in>set secs. \<forall>q\<in>set scheds. provision_ref p \<noteq> provision_ref q"
       "secs = map sectionProvision (the (extractSections doc_full))"
       "extractSchedules toLowerCaseLatin1 doc_full = Some (scheds, [])"
    by auto
  from r(6) have secs: "map provision_ref secs = [js ''s1'', js ''s2'']"
    by (simp add: fl_sections sectionProvision_def) (simp add: js_def)
  from r(7) have scheds: "map provision_ref scheds = [js ''sched-s-1'', js ''sched-s-2'']"
    by (auto simp: fl_schedules)
  from r(4) have num: "list_all (\<lambda>p. is_numeral (p_section p)) secs"
    by (auto simp: list_all_iff)
  from r(1,2,3,5) secs scheds num show ?thesis
    by - (rule exI[of _ r], rule exI[of _ out'], rule exI[of _ secs], rule exI[of _ scheds], simp)
qed

end
